theory Spec2Isabelle
  imports Main
begin

section \<open>The AVL tree of src/debugger/examples/avl/avl.c\<close>

text \<open>
  The program keeps its nodes on the C heap and links them by pointers, with a parent
  back-pointer in every node; rebalancing walks these back-pointers upwards and rotations
  rewire a \<^emph>\<open>slot\<close> (a \<^verbatim>\<open>tree_node**\<close>). The model therefore keeps an explicit
  store: a map from addresses to node records. A pointer is an \<open>addr option\<close>
  (\<open>None\<close> is \<^verbatim>\<open>NULL\<close>). Dereferencing \<^verbatim>\<open>NULL\<close> or an address that is not
  allocated is undefined behaviour in C; the model reports it as the error
  \<open>Bad_pointer\<close>. A failed \<^verbatim>\<open>assert\<close> aborts the program; the model reports
  \<open>Assertion_failed\<close>. \<^verbatim>\<open>int\<close> fields are integers; the two compound assignments
  of a rotation are the only arithmetic on values no assertion has bounded before, and
  there a result outside the range of a 32-bit \<^verbatim>\<open>int\<close> is reported as
  \<open>Signed_overflow\<close>.
\<close>

subsection \<open>Data\<close>

type_synonym addr = nat

record tree_node =
  left :: "addr option"
  right :: "addr option"
  parent :: "addr option"
  imbalance :: int
  key :: int

text \<open>
  The state: the heap of nodes, the \<^verbatim>\<open>root\<close> field of the one \<^verbatim>\<open>tree\<close> object,
  and the addresses passed to \<^verbatim>\<open>free\<close> so far, in call order (a trace kept only to
  state in which order nodes are released).
\<close>

record tree_state =
  heap :: "addr \<Rightarrow> tree_node option"
  root :: "addr option"
  freed :: "addr list"

datatype error = Bad_pointer | Assertion_failed | Signed_overflow

text \<open>A \<^verbatim>\<open>tree_node**\<close>: the address of the tree's root field or of a node's child field.\<close>

datatype slot = Root_slot | Left_slot addr | Right_slot addr

definition bind_r :: "error + 'a \<Rightarrow> ('a \<Rightarrow> error + 'b) \<Rightarrow> error + 'b" where
  "bind_r m f = (case m of Inl e \<Rightarrow> Inl e | Inr x \<Rightarrow> f x)"

definition int_ok :: "int \<Rightarrow> bool" where
  "int_ok i = (- 2147483648 \<le> i \<and> i \<le> 2147483647)"

text \<open>Reading \<^verbatim>\<open>*p\<close> for a node pointer \<open>p\<close>.\<close>

definition deref :: "tree_state \<Rightarrow> addr option \<Rightarrow> error + tree_node" where
  "deref s p =
     (case p of None \<Rightarrow> Inl Bad_pointer
      | Some a \<Rightarrow> (case heap s a of None \<Rightarrow> Inl Bad_pointer | Some n \<Rightarrow> Inr n))"

text \<open>Writing fields of the node at an allocated address.\<close>

definition upd_node :: "tree_state \<Rightarrow> addr \<Rightarrow> (tree_node \<Rightarrow> tree_node) \<Rightarrow> tree_state" where
  "upd_node s a f = s\<lparr>heap := (heap s)(a := map_option f (heap s a))\<rparr>"

definition imbalance_of :: "tree_state \<Rightarrow> addr \<Rightarrow> int" where
  "imbalance_of s a = (case heap s a of None \<Rightarrow> 0 | Some n \<Rightarrow> imbalance n)"

definition read_slot :: "tree_state \<Rightarrow> slot \<Rightarrow> error + addr option" where
  "read_slot s sl =
     (case sl of
        Root_slot \<Rightarrow> Inr (root s)
      | Left_slot p \<Rightarrow> (case heap s p of None \<Rightarrow> Inl Bad_pointer | Some n \<Rightarrow> Inr (left n))
      | Right_slot p \<Rightarrow> (case heap s p of None \<Rightarrow> Inl Bad_pointer | Some n \<Rightarrow> Inr (right n)))"

definition write_slot :: "tree_state \<Rightarrow> slot \<Rightarrow> addr option \<Rightarrow> error + tree_state" where
  "write_slot s sl v =
     (case sl of
        Root_slot \<Rightarrow> Inr (s\<lparr>root := v\<rparr>)
      | Left_slot p \<Rightarrow>
          (case heap s p of None \<Rightarrow> Inl Bad_pointer
           | Some n \<Rightarrow> Inr (upd_node s p (\<lambda>n. n\<lparr>left := v\<rparr>)))
      | Right_slot p \<Rightarrow>
          (case heap s p of None \<Rightarrow> Inl Bad_pointer
           | Some n \<Rightarrow> Inr (upd_node s p (\<lambda>n. n\<lparr>right := v\<rparr>))))"

subsection \<open>The macros\<close>

text \<open>
  \<^verbatim>\<open>TREE_PARENTPTR(ptree, pnode)\<close>: the slot that holds \<open>pnode\<close> (which is allocated
  where the macro is used); \<^verbatim>\<open>TREE_SIDEOF(pnode)\<close>: -1, 1 or 0. Both read the
  parent's \<^verbatim>\<open>left\<close> field when there is a parent.
\<close>

definition TREE_PARENTPTR :: "tree_state \<Rightarrow> addr \<Rightarrow> error + slot" where
  "TREE_PARENTPTR s pnode =
     bind_r (deref s (Some pnode)) (\<lambda>n.
       case parent n of
         None \<Rightarrow> Inr Root_slot
       | Some p \<Rightarrow>
           bind_r (deref s (Some p)) (\<lambda>pn.
             if Some pnode = left pn then Inr (Left_slot p) else Inr (Right_slot p)))"

definition TREE_SIDEOF :: "tree_state \<Rightarrow> addr \<Rightarrow> error + int" where
  "TREE_SIDEOF s pnode =
     bind_r (deref s (Some pnode)) (\<lambda>n.
       case parent n of
         None \<Rightarrow> Inr 0
       | Some p \<Rightarrow>
           bind_r (deref s (Some p)) (\<lambda>pn.
             if Some pnode = left pn then Inr (- 1) else Inr 1))"

subsection \<open>Creation and destruction\<close>

definition tree_init :: tree_state where
  "tree_init = \<lparr>heap = (\<lambda>_. None), root = None, freed = []\<rparr>"

text \<open>\<^verbatim>\<open>free(p)\<close> for a non-null \<open>p\<close>: releasing what is not allocated is undefined.\<close>

definition free :: "tree_state \<Rightarrow> addr \<Rightarrow> error + tree_state" where
  "free s a =
     (case heap s a of
        None \<Rightarrow> Inl Bad_pointer
      | Some n \<Rightarrow> Inr (s\<lparr>heap := (heap s)(a := None), freed := freed s @ [a]\<rparr>))"

text \<open>
  The recursion of \<^verbatim>\<open>tree_delete_recursive\<close> follows child pointers and need not end
  on a heap that is not a tree, so it is a partial function: \<open>None\<close> is "does not return".
  \<^verbatim>\<open>root->right\<close> is read after the call on the left subtree returned.
\<close>

partial_function (option) tree_delete_recursive ::
  "tree_state \<Rightarrow> addr \<Rightarrow> (error + tree_state) option" where
  "tree_delete_recursive s rt =
     (case heap s rt of
        None \<Rightarrow> Some (Inl Bad_pointer)
      | Some n \<Rightarrow>
          Option.bind
            (case left n of None \<Rightarrow> Some (Inr s) | Some l \<Rightarrow> tree_delete_recursive s l)
            (\<lambda>r1. case r1 of
               Inl e \<Rightarrow> Some (Inl e)
             | Inr s1 \<Rightarrow>
                 (case heap s1 rt of
                    None \<Rightarrow> Some (Inl Bad_pointer)
                  | Some n1 \<Rightarrow>
                      Option.bind
                        (case right n1 of None \<Rightarrow> Some (Inr s1)
                         | Some r \<Rightarrow> tree_delete_recursive s1 r)
                        (\<lambda>r2. case r2 of
                           Inl e \<Rightarrow> Some (Inl e)
                         | Inr s2 \<Rightarrow> Some (free s2 rt)))))"

definition tree_delete :: "tree_state \<Rightarrow> (error + tree_state) option" where
  "tree_delete s =
     (case root s of None \<Rightarrow> Some (Inr s) | Some r \<Rightarrow> tree_delete_recursive s r)"

subsection \<open>Rotations\<close>

text \<open>
  \<^verbatim>\<open>tree_left_rotate\<close> in the order of its statements. The local pointers \<open>a\<close>,
  \<open>b\<close>, \<open>c\<close>, \<open>p\<close> are read first, then the assertion, then the six pointer
  assignments (\<open>left_rotate_links\<close>), then the two compound assignments to the
  imbalance fields and the two closing assertions (\<open>left_rotate_imbalance\<close>). Every
  statement reads the fields it uses from the state the statements before it produced.
\<close>

definition left_rotate_links ::
  "tree_state \<Rightarrow> slot \<Rightarrow> addr \<Rightarrow> addr \<Rightarrow> addr option \<Rightarrow> addr option \<Rightarrow> error + tree_state" where
  "left_rotate_links s node a b c p =
     bind_r (write_slot s node (Some b)) (\<lambda>s1.
       let s2 = upd_node s1 b (\<lambda>n. n\<lparr>parent := p\<rparr>);
           s3 = upd_node s2 a (\<lambda>n. n\<lparr>parent := Some b\<rparr>);
           s4 = upd_node s3 b (\<lambda>n. n\<lparr>left := Some a\<rparr>)
       in
       bind_r (case c of
                 None \<Rightarrow> Inr s4
               | Some c' \<Rightarrow>
                   (case heap s4 c' of
                      None \<Rightarrow> Inl Bad_pointer
                    | Some _ \<Rightarrow> Inr (upd_node s4 c' (\<lambda>n. n\<lparr>parent := Some a\<rparr>))))
         (\<lambda>s5. Inr (upd_node s5 a (\<lambda>n. n\<lparr>right := c\<rparr>))))"

definition left_rotate_imbalance :: "tree_state \<Rightarrow> addr \<Rightarrow> addr \<Rightarrow> error + tree_state" where
  "left_rotate_imbalance s a b =
     (let ia = imbalance_of s a + (- 1 - (if imbalance_of s b > 0 then imbalance_of s b else 0))
      in
      if \<not> int_ok ia then Inl Signed_overflow
      else
        let s1 = upd_node s a (\<lambda>n. n\<lparr>imbalance := ia\<rparr>);
            ib = imbalance_of s1 b
                 + (- 1 + (if imbalance_of s1 a > 0 then imbalance_of s1 a else 0))
        in
        if \<not> int_ok ib then Inl Signed_overflow
        else
          let s2 = upd_node s1 b (\<lambda>n. n\<lparr>imbalance := ib\<rparr>) in
          if \<not> (imbalance_of s2 a \<ge> - 1 \<and> imbalance_of s2 a \<le> 1) then Inl Assertion_failed
          else if \<not> (imbalance_of s2 b \<ge> - 1 \<and> imbalance_of s2 b \<le> 1) then Inl Assertion_failed
          else Inr s2)"

definition tree_left_rotate :: "tree_state \<Rightarrow> slot \<Rightarrow> error + tree_state" where
  "tree_left_rotate s node =
     bind_r (read_slot s node) (\<lambda>a'.
     bind_r (deref s a') (\<lambda>na.
     bind_r (deref s (right na)) (\<lambda>nb.
     case (a', right na) of
       (Some a, Some b) \<Rightarrow>
         if \<not> imbalance na > 0 then Inl Assertion_failed
         else
           bind_r (left_rotate_links s node a b (left nb) (parent na))
             (\<lambda>s1. left_rotate_imbalance s1 a b)
     | _ \<Rightarrow> Inl Bad_pointer)))"

text \<open>
  \<^verbatim>\<open>tree_right_rotate\<close>: the mirror image, except that the assertion on
  \<^verbatim>\<open>(*node)->imbalance\<close> is the first statement.
\<close>

definition right_rotate_links ::
  "tree_state \<Rightarrow> slot \<Rightarrow> addr \<Rightarrow> addr \<Rightarrow> addr option \<Rightarrow> addr option \<Rightarrow> error + tree_state" where
  "right_rotate_links s node a b c p =
     bind_r (write_slot s node (Some b)) (\<lambda>s1.
       let s2 = upd_node s1 b (\<lambda>n. n\<lparr>parent := p\<rparr>);
           s3 = upd_node s2 a (\<lambda>n. n\<lparr>parent := Some b\<rparr>);
           s4 = upd_node s3 b (\<lambda>n. n\<lparr>right := Some a\<rparr>)
       in
       bind_r (case c of
                 None \<Rightarrow> Inr s4
               | Some c' \<Rightarrow>
                   (case heap s4 c' of
                      None \<Rightarrow> Inl Bad_pointer
                    | Some _ \<Rightarrow> Inr (upd_node s4 c' (\<lambda>n. n\<lparr>parent := Some a\<rparr>))))
         (\<lambda>s5. Inr (upd_node s5 a (\<lambda>n. n\<lparr>left := c\<rparr>))))"

definition right_rotate_imbalance :: "tree_state \<Rightarrow> addr \<Rightarrow> addr \<Rightarrow> error + tree_state" where
  "right_rotate_imbalance s a b =
     (let ia = imbalance_of s a + (1 - (if imbalance_of s b < 0 then imbalance_of s b else 0))
      in
      if \<not> int_ok ia then Inl Signed_overflow
      else
        let s1 = upd_node s a (\<lambda>n. n\<lparr>imbalance := ia\<rparr>);
            ib = imbalance_of s1 b
                 + (1 + (if imbalance_of s1 a < 0 then imbalance_of s1 a else 0))
        in
        if \<not> int_ok ib then Inl Signed_overflow
        else
          let s2 = upd_node s1 b (\<lambda>n. n\<lparr>imbalance := ib\<rparr>) in
          if \<not> (imbalance_of s2 a \<ge> - 1 \<and> imbalance_of s2 a \<le> 1) then Inl Assertion_failed
          else if \<not> (imbalance_of s2 b \<ge> - 1 \<and> imbalance_of s2 b \<le> 1) then Inl Assertion_failed
          else Inr s2)"

definition tree_right_rotate :: "tree_state \<Rightarrow> slot \<Rightarrow> error + tree_state" where
  "tree_right_rotate s node =
     bind_r (read_slot s node) (\<lambda>a'.
     bind_r (deref s a') (\<lambda>na.
     if \<not> imbalance na < 0 then Inl Assertion_failed
     else
       bind_r (deref s (left na)) (\<lambda>nb.
       case (a', left na) of
         (Some a, Some b) \<Rightarrow>
           bind_r (right_rotate_links s node a b (right nb) (parent na))
             (\<lambda>s1. right_rotate_imbalance s1 a b)
       | _ \<Rightarrow> Inl Bad_pointer)))"

text \<open>
  \<^verbatim>\<open>tree_rotate\<close>: \<^verbatim>\<open>&(*node)->right\<close> is the right child slot of the node the
  slot holds when the call is made. There is no \<^verbatim>\<open>else\<close> branch: with any other
  imbalance the function returns without doing anything.
\<close>

definition tree_rotate :: "tree_state \<Rightarrow> slot \<Rightarrow> error + tree_state" where
  "tree_rotate s node =
     bind_r (read_slot s node) (\<lambda>a'.
     bind_r (deref s a') (\<lambda>na.
     case a' of
       None \<Rightarrow> Inl Bad_pointer
     | Some a \<Rightarrow>
         if imbalance na = 2 then
           bind_r (deref s (right na)) (\<lambda>nr.
           bind_r (if imbalance nr < 0 then tree_right_rotate s (Right_slot a) else Inr s)
             (\<lambda>s1. tree_left_rotate s1 node))
         else if imbalance na = - 2 then
           bind_r (deref s (left na)) (\<lambda>nl.
           bind_r (if imbalance nl > 0 then tree_left_rotate s (Left_slot a) else Inr s)
             (\<lambda>s1. tree_right_rotate s1 node))
         else Inr s))"

subsection \<open>Rebalancing\<close>

text \<open>The assertion that closes \<^verbatim>\<open>tree_rebalance\<close>, on the state the switch left.\<close>

definition rebalance_exit :: "addr \<Rightarrow> tree_state \<Rightarrow> error + tree_state" where
  "rebalance_exit node s =
     bind_r (deref s (Some node)) (\<lambda>n.
       if imbalance n = 1 \<or> imbalance n = 0 \<or> imbalance n = - 1 then Inr s
       else Inl Assertion_failed)"

text \<open>
  \<^verbatim>\<open>tree_rebalance\<close> climbs parent pointers, which need not end on a heap that is not
  a tree: a partial function again. After the two entry assertions
  \<^verbatim>\<open>node->imbalance + bf\<close> lies between -2 and 2.
\<close>

partial_function (option) tree_rebalance ::
  "tree_state \<Rightarrow> addr \<Rightarrow> int \<Rightarrow> (error + tree_state) option" where
  "tree_rebalance s node bf =
     (case heap s node of
        None \<Rightarrow> Some (Inl Bad_pointer)
      | Some n \<Rightarrow>
          if \<not> (imbalance n = 1 \<or> imbalance n = 0 \<or> imbalance n = - 1)
          then Some (Inl Assertion_failed)
          else if \<not> (bf = 1 \<or> bf = - 1) then Some (Inl Assertion_failed)
          else
            let i = imbalance n + bf;
                s1 = upd_node s node (\<lambda>n. n\<lparr>imbalance := i\<rparr>)
            in
            if \<not> (i = 0 \<or> i = bf \<or> i = 2 * bf) then Some (Inl Assertion_failed)
            else
              Option.bind
                (if i * bf = 0 then Some (Inr s1)
                 else if i * bf = 1 then
                   (case parent n of
                      None \<Rightarrow> Some (Inr s1)
                    | Some p \<Rightarrow>
                        (case TREE_SIDEOF s1 node of
                           Inl e \<Rightarrow> Some (Inl e)
                         | Inr side \<Rightarrow> tree_rebalance s1 p side))
                 else if i * bf = 2 then
                   Some (bind_r (TREE_PARENTPTR s1 node) (tree_rotate s1))
                 else Some (Inr s1))
                (\<lambda>r. Some (bind_r r (rebalance_exit node))))"

subsection \<open>Insertion\<close>

text \<open>
  \<^verbatim>\<open>malloc\<close> is outside the program: its result is a parameter \<open>alloc\<close> of the
  functions that call it, \<open>None\<close> for a failed allocation and otherwise the address of
  a block that is not allocated yet (\<open>alloc_fresh\<close>, the contract of \<^verbatim>\<open>malloc\<close>).
\<close>

definition alloc_fresh :: "tree_state \<Rightarrow> addr option \<Rightarrow> bool" where
  "alloc_fresh s alloc = (case alloc of None \<Rightarrow> True | Some a \<Rightarrow> heap s a = None)"

definition tree_create_root :: "tree_state \<Rightarrow> addr option \<Rightarrow> tree_state \<times> addr option" where
  "tree_create_root s alloc =
     (let s1 = s\<lparr>root := alloc\<rparr> in
      case root s1 of
        None \<Rightarrow> (s1, None)
      | Some a \<Rightarrow>
          let s2 = s1\<lparr>heap := (heap s1)(a \<mapsto>
                     \<lparr>left = None, right = None, parent = None, imbalance = 0, key = 0\<rparr>)\<rparr>
          in (s2, root s2))"

text \<open>
  The state of \<^verbatim>\<open>tree_insert_under\<close> just before it calls \<^verbatim>\<open>tree_rebalance\<close>: the
  new node initialised and the parent's child pointer set.
\<close>

definition attach_node :: "tree_state \<Rightarrow> addr \<Rightarrow> bool \<Rightarrow> addr \<Rightarrow> error + tree_state" where
  "attach_node s p right_side node =
     (let s1 = s\<lparr>heap := (heap s)(node \<mapsto>
                  \<lparr>left = None, right = None, parent = Some p, imbalance = 0, key = 0\<rparr>)\<rparr>
      in write_slot s1 (if right_side then Right_slot p else Left_slot p) (Some node))"

definition tree_insert_under ::
  "tree_state \<Rightarrow> addr \<Rightarrow> bool \<Rightarrow> addr option \<Rightarrow> (error + tree_state \<times> addr option) option" where
  "tree_insert_under s p right_side alloc =
     (case alloc of
        None \<Rightarrow> Some (Inr (s, None))
      | Some node \<Rightarrow>
          (case attach_node s p right_side node of
             Inl e \<Rightarrow> Some (Inl e)
           | Inr s2 \<Rightarrow>
               Option.bind (tree_rebalance s2 p (if right_side then 1 else - 1))
                 (\<lambda>r. Some (bind_r r (\<lambda>s3. Inr (s3, Some node))))))"

text \<open>
  The search loop of \<^verbatim>\<open>tree_put\<close>, with its two exits: the \<^verbatim>\<open>return\<close> on an equal
  key, and the end of the loop with \<open>dest\<close> and \<open>parent\<close>.
\<close>

datatype search_result = Found | Vacant slot "addr option"

partial_function (option) tree_put_loop ::
  "tree_state \<Rightarrow> int \<Rightarrow> slot \<Rightarrow> addr option \<Rightarrow> (error + search_result) option" where
  "tree_put_loop s k dest par =
     (case read_slot s dest of
        Inl e \<Rightarrow> Some (Inl e)
      | Inr None \<Rightarrow> Some (Inr (Vacant dest par))
      | Inr (Some p) \<Rightarrow>
          (case heap s p of
             None \<Rightarrow> Some (Inl Bad_pointer)
           | Some n \<Rightarrow>
               if k > key n then tree_put_loop s k (Right_slot p) (Some p)
               else if k < key n then tree_put_loop s k (Left_slot p) (Some p)
               else Some (Inr Found)))"

definition tree_put :: "tree_state \<Rightarrow> int \<Rightarrow> addr option \<Rightarrow> (error + tree_state) option" where
  "tree_put s k alloc =
     Option.bind (tree_put_loop s k Root_slot None) (\<lambda>r.
       case r of
         Inl e \<Rightarrow> Some (Inl e)
       | Inr Found \<Rightarrow> Some (Inr s)
       | Inr (Vacant dest par) \<Rightarrow>
           Option.bind
             (case par of
                None \<Rightarrow> Some (Inr (tree_create_root s alloc))
              | Some p \<Rightarrow> tree_insert_under s p (dest = Right_slot p) alloc)
             (\<lambda>r2. case r2 of
                Inl e \<Rightarrow> Some (Inl e)
              | Inr (s', None) \<Rightarrow> Some (Inr s')
              | Inr (s', Some newNode) \<Rightarrow>
                  Some (bind_r (deref s' (Some newNode)) (\<lambda>_.
                    Inr (upd_node s' newNode (\<lambda>n. n\<lparr>key := k\<rparr>))))))"

text \<open>Several insertions in a row, as \<^verbatim>\<open>main\<close> does them, each with its \<^verbatim>\<open>malloc\<close> result.\<close>

fun tree_puts :: "tree_state \<Rightarrow> (int \<times> addr option) list \<Rightarrow> (error + tree_state) option" where
  "tree_puts s [] = Some (Inr s)"
| "tree_puts s ((k, alloc) # ks) =
     (case tree_put s k alloc of
        None \<Rightarrow> None
      | Some (Inl e) \<Rightarrow> Some (Inl e)
      | Some (Inr s') \<Rightarrow> tree_puts s' ks)"

declare tree_delete_recursive.simps [code]
declare tree_rebalance.simps [code]
declare tree_put_loop.simps [code]

section \<open>Trees in the heap\<close>

text \<open>
  What it means for the heap to hold a tree. A \<open>shape\<close> is a binary tree of addresses;
  \<open>rep h par t\<close> says that in heap \<open>h\<close> the nodes of \<open>t\<close> are allocated and linked as
  \<open>t\<close> says, child pointers and parent back-pointers alike, the root's parent pointer
  being \<open>par\<close>. Together with distinctness of the addresses this is a tree in memory.
\<close>

datatype shape = Empty | Branch shape addr shape

fun root_ptr :: "shape \<Rightarrow> addr option" where
  "root_ptr Empty = None"
| "root_ptr (Branch l a r) = Some a"

fun inorder :: "shape \<Rightarrow> addr list" where
  "inorder Empty = []"
| "inorder (Branch l a r) = inorder l @ a # inorder r"

fun postorder :: "shape \<Rightarrow> addr list" where
  "postorder Empty = []"
| "postorder (Branch l a r) = postorder l @ postorder r @ [a]"

fun height :: "shape \<Rightarrow> nat" where
  "height Empty = 0"
| "height (Branch l a r) = Suc (max (height l) (height r))"

fun node_count :: "shape \<Rightarrow> nat" where
  "node_count Empty = 0"
| "node_count (Branch l a r) = node_count l + 1 + node_count r"

fun rep :: "(addr \<Rightarrow> tree_node option) \<Rightarrow> addr option \<Rightarrow> shape \<Rightarrow> bool" where
  "rep h par Empty = True"
| "rep h par (Branch l a r) =
     (case h a of
        None \<Rightarrow> False
      | Some n \<Rightarrow>
          parent n = par \<and> left n = root_ptr l \<and> right n = root_ptr r \<and>
          rep h (Some a) l \<and> rep h (Some a) r)"

definition tree_rep :: "tree_state \<Rightarrow> shape \<Rightarrow> bool" where
  "tree_rep s t = (root s = root_ptr t \<and> rep (heap s) None t \<and> distinct (inorder t))"

definition key_of :: "tree_state \<Rightarrow> addr \<Rightarrow> int" where
  "key_of s a = (case heap s a of None \<Rightarrow> 0 | Some n \<Rightarrow> key n)"

text \<open>
  The balance invariant of the spec: every stored imbalance is the height of the right
  subtree minus the height of the left one, measured on the shape, and is -1, 0 or 1.
\<close>

fun balance_inv :: "tree_state \<Rightarrow> shape \<Rightarrow> bool" where
  "balance_inv s Empty = True"
| "balance_inv s (Branch l a r) =
     (imbalance_of s a = int (height r) - int (height l) \<and>
      \<bar>imbalance_of s a\<bar> \<le> 1 \<and> balance_inv s l \<and> balance_inv s r)"

text \<open>The search-tree invariant of the spec, node by node.\<close>

fun search_inv :: "tree_state \<Rightarrow> shape \<Rightarrow> bool" where
  "search_inv s Empty = True"
| "search_inv s (Branch l a r) =
     (list_all (\<lambda>x. key_of s x < key_of s a) (inorder l) \<and>
      list_all (\<lambda>x. key_of s a < key_of s x) (inorder r) \<and>
      search_inv s l \<and> search_inv s r)"

section \<open>Notions used in the proofs\<close>

text \<open>The pointer fields of a node, which are all that \<open>rep\<close> looks at.\<close>

definition links :: "tree_node option \<Rightarrow> (addr option \<times> addr option \<times> addr option) option" where
  "links = map_option (\<lambda>n. (left n, right n, parent n))"

text \<open>The node that holds a slot, and the assignment through the slot on that node.\<close>

fun slot_holder :: "slot \<Rightarrow> addr option" where
  "slot_holder Root_slot = None"
| "slot_holder (Left_slot p) = Some p"
| "slot_holder (Right_slot p) = Some p"

fun slot_set :: "slot \<Rightarrow> addr option \<Rightarrow> tree_node \<Rightarrow> tree_node" where
  "slot_set Root_slot v n = n"
| "slot_set (Left_slot p) v n = n\<lparr>left := v\<rparr>"
| "slot_set (Right_slot p) v n = n\<lparr>right := v\<rparr>"

text \<open>The new imbalance values of a rotation, as the two compound assignments compute them.\<close>

definition left_new_a :: "int \<Rightarrow> int \<Rightarrow> int" where
  "left_new_a ia ib = ia + (- 1 - (if ib > 0 then ib else 0))"

definition left_new_b :: "int \<Rightarrow> int \<Rightarrow> int" where
  "left_new_b ia ib = ib + (- 1 + (if left_new_a ia ib > 0 then left_new_a ia ib else 0))"

definition right_new_a :: "int \<Rightarrow> int \<Rightarrow> int" where
  "right_new_a ia ib = ia + (1 - (if ib < 0 then ib else 0))"

definition right_new_b :: "int \<Rightarrow> int \<Rightarrow> int" where
  "right_new_b ia ib = ib + (1 + (if right_new_a ia ib < 0 then right_new_a ia ib else 0))"

text \<open>
  A position in a tree: the path from a subtree (the \<^emph>\<open>hole\<close>) up to the root, nearest
  ancestor first. \<open>Left_of p r\<close> says that the hole is the left child of \<open>p\<close>, whose right
  subtree is \<open>r\<close>; \<open>Right_of l p\<close> that it is the right child of \<open>p\<close>, whose left subtree
  is \<open>l\<close>. \<open>plug fs t\<close> is the whole tree with \<open>t\<close> in the hole.
\<close>

datatype frame = Left_of addr shape | Right_of shape addr

fun frame_addr :: "frame \<Rightarrow> addr" where
  "frame_addr (Left_of p r) = p"
| "frame_addr (Right_of l p) = p"

fun fill :: "frame \<Rightarrow> shape \<Rightarrow> shape" where
  "fill (Left_of p r) t = Branch t p r"
| "fill (Right_of l p) t = Branch l p t"

fun plug :: "frame list \<Rightarrow> shape \<Rightarrow> shape" where
  "plug [] t = t"
| "plug (f # fs) t = plug fs (fill f t)"

fun hole_par :: "frame list \<Rightarrow> addr option" where
  "hole_par [] = None"
| "hole_par (f # fs) = Some (frame_addr f)"

fun hole_slot :: "frame list \<Rightarrow> slot" where
  "hole_slot [] = Root_slot"
| "hole_slot (Left_of p r # fs) = Left_slot p"
| "hole_slot (Right_of l p # fs) = Right_slot p"

text \<open>The addresses of the tree before and after the hole, in order.\<close>

fun before :: "frame list \<Rightarrow> addr list" where
  "before [] = []"
| "before (Left_of p r # fs) = before fs"
| "before (Right_of l p # fs) = before fs @ inorder l @ [p]"

fun after :: "frame list \<Rightarrow> addr list" where
  "after [] = []"
| "after (Left_of p r # fs) = p # inorder r @ after fs"
| "after (Right_of l p # fs) = after fs"

text \<open>
  \<open>above h rt fs q\<close>: in heap \<open>h\<close> with root pointer \<open>rt\<close> the ancestors and their other
  subtrees are linked as \<open>fs\<close> says, and the slot of the hole holds the pointer \<open>q\<close>.
\<close>

fun above :: "(addr \<Rightarrow> tree_node option) \<Rightarrow> addr option \<Rightarrow> frame list \<Rightarrow> addr option \<Rightarrow> bool" where
  "above h rt [] q = (rt = q)"
| "above h rt (Left_of p r # fs) q =
     (links (h p) = Some (q, root_ptr r, hole_par fs) \<and> rep h (Some p) r \<and>
      above h rt fs (Some p))"
| "above h rt (Right_of l p # fs) q =
     (links (h p) = Some (root_ptr l, q, hole_par fs) \<and> rep h (Some p) l \<and>
      above h rt fs (Some p))"

definition zip_rep :: "tree_state \<Rightarrow> frame list \<Rightarrow> shape \<Rightarrow> bool" where
  "zip_rep s fs t =
     (above (heap s) (root s) fs (root_ptr t) \<and> rep (heap s) (hole_par fs) t \<and>
      distinct (before fs @ inorder t @ after fs))"

text \<open>Giving a node a new parent pointer.\<close>

definition reparent :: "addr option \<Rightarrow> tree_node option \<Rightarrow> tree_node option" where
  "reparent p = map_option (\<lambda>n. n\<lparr>parent := p\<rparr>)"

text \<open>What rebalancing leaves alone: which addresses are allocated, the keys, the trace.\<close>

definition same_data :: "tree_state \<Rightarrow> tree_state \<Rightarrow> bool" where
  "same_data s s' =
     ((\<forall>x. (heap s' x = None) = (heap s x = None)) \<and> (\<forall>x. key_of s' x = key_of s x) \<and>
      freed s' = freed s)"

text \<open>
  The search of \<^verbatim>\<open>tree_put\<close> as a walk down a shape: \<open>None\<close> when the key is met,
  otherwise the position of the empty subtree where the walk ends.
\<close>

fun descend :: "tree_state \<Rightarrow> int \<Rightarrow> frame list \<Rightarrow> shape \<Rightarrow> frame list option" where
  "descend s k fs Empty = Some fs"
| "descend s k fs (Branch l a r) =
     (if k > key_of s a then descend s k (Right_of l a # fs) r
      else if k < key_of s a then descend s k (Left_of a r # fs) l
      else None)"

text \<open>The state after every node of a shape was passed to \<^verbatim>\<open>free\<close>, in post-order.\<close>

definition released :: "tree_state \<Rightarrow> shape \<Rightarrow> tree_state" where
  "released s t =
     s\<lparr>heap := (\<lambda>x. if x \<in> set (inorder t) then None else heap s x),
       freed := freed s @ postorder t\<rparr>"

text \<open>
  The same state with other keys: \<open>rekey g s\<close> stores \<open>g x\<close> in the key field of every
  allocated node \<open>x\<close>. Two states that differ in their keys only are \<open>s\<close> and
  \<open>rekey g s\<close> for some \<open>g\<close>.
\<close>

definition rekey :: "(addr \<Rightarrow> int) \<Rightarrow> tree_state \<Rightarrow> tree_state" where
  "rekey g s = s\<lparr>heap := (\<lambda>x. map_option (\<lambda>n. n\<lparr>key := g x\<rparr>) (heap s x))\<rparr>"

section \<open>Example states\<close>

definition mk_node :: "addr option \<Rightarrow> addr option \<Rightarrow> addr option \<Rightarrow> int \<Rightarrow> int \<Rightarrow> tree_node" where
  "mk_node l r p i k = \<lparr>left = l, right = r, parent = p, imbalance = i, key = k\<rparr>"

text \<open>A single node with key 7.\<close>

definition one_node :: tree_state where
  "one_node = \<lparr>heap = [1 \<mapsto> mk_node None None None 0 7], root = Some 1, freed = []\<rparr>"

text \<open>
  The tree that \<^verbatim>\<open>tree_put\<close> builds from the keys 10, 5, 20, 15, 25 inserted in this
  order into an empty tree, the n-th allocation returning address n:
  10 at the root, 5 and 20 below it, 15 and 25 below 20.
\<close>

definition avl5 :: tree_state where
  "avl5 = \<lparr>heap = [1 \<mapsto> mk_node (Some 2) (Some 3) None 1 10,
                   2 \<mapsto> mk_node None None (Some 1) 0 5,
                   3 \<mapsto> mk_node (Some 4) (Some 5) (Some 1) 0 20,
                   4 \<mapsto> mk_node None None (Some 3) 0 15,
                   5 \<mapsto> mk_node None None (Some 3) 0 25],
           root = Some 1, freed = []\<rparr>"

definition shape5 :: shape where
  "shape5 = Branch (Branch Empty 2 Empty) 1 (Branch (Branch Empty 4 Empty) 3 (Branch Empty 5 Empty))"

text \<open>The shape after key 12 went in at address 6 and the double rotation at the root.\<close>

definition shape6 :: shape where
  "shape6 = Branch (Branch (Branch Empty 2 Empty) 1 (Branch Empty 6 Empty)) 4
              (Branch Empty 3 (Branch Empty 5 Empty))"

text \<open>
  The state in which \<^verbatim>\<open>tree_rebalance\<close> calls \<^verbatim>\<open>tree_rotate\<close> on the root slot while
  key 17 is inserted into \<open>avl5\<close> at address 6: the new node hangs to the right of 15, and
  the imbalances of 15, 20 and 10 have been updated to 1, -1 and 2.
\<close>

definition rl_state :: tree_state where
  "rl_state = \<lparr>heap = [1 \<mapsto> mk_node (Some 2) (Some 3) None 2 10,
                       2 \<mapsto> mk_node None None (Some 1) 0 5,
                       3 \<mapsto> mk_node (Some 4) (Some 5) (Some 1) (- 1) 20,
                       4 \<mapsto> mk_node None (Some 6) (Some 3) 1 15,
                       5 \<mapsto> mk_node None None (Some 3) 0 25,
                       6 \<mapsto> mk_node None None (Some 4) 0 0],
               root = Some 1, freed = []\<rparr>"

text \<open>
  The state in which \<^verbatim>\<open>tree_rebalance\<close> calls \<^verbatim>\<open>tree_rotate\<close> on the root slot while
  \<^verbatim>\<open>main\<close> inserts its third key: 12 at the root with imbalance -2, 4 to its left with
  imbalance 1, the new node to the right of 4.
\<close>

definition lr_state :: tree_state where
  "lr_state = \<lparr>heap = [1 \<mapsto> mk_node (Some 2) None None (- 2) 12,
                       2 \<mapsto> mk_node None (Some 3) (Some 1) 1 4,
                       3 \<mapsto> mk_node None None (Some 2) 0 0],
               root = Some 1, freed = []\<rparr>"

text \<open>
  The state in which \<open>tree_insert_under\<close> calls \<open>tree_rebalance\<close> on the node with key 6
  while \<^verbatim>\<open>main\<close> inserts its sixth key, 8 (the n-th allocation returning address n): the
  tree is 5 at the root, 4 and 12 below it, 2 to the left of 4, 6 to the left of 12, and
  the new node, its key not yet set, to the right of 6.
\<close>

definition main_state :: tree_state where
  "main_state = \<lparr>heap = [1 \<mapsto> mk_node (Some 4) None (Some 3) (- 1) 12,
                         2 \<mapsto> mk_node (Some 5) None (Some 3) (- 1) 4,
                         3 \<mapsto> mk_node (Some 2) (Some 1) None 0 5,
                         4 \<mapsto> mk_node None (Some 6) (Some 1) 0 6,
                         5 \<mapsto> mk_node None None (Some 2) 0 2,
                         6 \<mapsto> mk_node None None (Some 4) 0 0],
                 root = Some 3, freed = []\<rparr>"

text \<open>One level up: the imbalance of the node with key 6 is now 1.\<close>

definition main_state_up :: tree_state where
  "main_state_up = upd_node main_state 4 (\<lambda>n. n\<lparr>imbalance := 1\<rparr>)"

text \<open>The tree of \<^verbatim>\<open>main\<close> after its first two insertions: 12 at the root, 4 to its left.\<close>

definition two_nodes :: tree_state where
  "two_nodes = \<lparr>heap = [1 \<mapsto> mk_node (Some 2) None None (- 1) 12,
                        2 \<mapsto> mk_node None None (Some 1) 0 4],
                root = Some 1, freed = []\<rparr>"

text \<open>
  The mirror image of \<open>avl5\<close>: the tree that \<^verbatim>\<open>tree_put\<close> builds from the keys
  10, 20, 5, 3, 7 inserted in this order into an empty tree, the n-th allocation returning
  address n: 10 at the root, 5 and 20 below it, 3 and 7 below 5. No insertion rotates.
\<close>

definition avl5_mirror :: tree_state where
  "avl5_mirror = \<lparr>heap = [1 \<mapsto> mk_node (Some 3) (Some 2) None (- 1) 10,
                          2 \<mapsto> mk_node None None (Some 1) 0 20,
                          3 \<mapsto> mk_node (Some 4) (Some 5) (Some 1) 0 5,
                          4 \<mapsto> mk_node None None (Some 3) 0 3,
                          5 \<mapsto> mk_node None None (Some 3) 0 7],
                  root = Some 1, freed = []\<rparr>"

definition shape5_mirror :: shape where
  "shape5_mirror =
     Branch (Branch (Branch Empty 4 Empty) 3 (Branch Empty 5 Empty)) 1 (Branch Empty 2 Empty)"

section \<open>Proof infrastructure\<close>

subsection \<open>Primitive state operations\<close>

lemma bind_r_simps [simp]: "bind_r (Inl e) f = Inl e" "bind_r (Inr x) f = f x"
  by (simp_all add: bind_r_def)

lemma bind_r_eq_Inr: "bind_r m f = Inr y \<longleftrightarrow> (\<exists>x. m = Inr x \<and> f x = Inr y)"
  by (cases m) simp_all

lemma upd_node_simps [simp]:
  "heap (upd_node s a f) = (heap s)(a := map_option f (heap s a))"
  "root (upd_node s a f) = root s"
  "freed (upd_node s a f) = freed s"
  by (simp_all add: upd_node_def)

lemma deref_simps [simp]:
  "deref s None = Inl Bad_pointer"
  "deref s (Some a) = (case heap s a of None \<Rightarrow> Inl Bad_pointer | Some n \<Rightarrow> Inr n)"
  by (simp_all add: deref_def)

lemma links_simps [simp]:
  "links None = None"
  "links (Some n) = Some (left n, right n, parent n)"
  by (simp_all add: links_def)

lemma links_eq_None [simp]: "links x = None \<longleftrightarrow> x = None"
  by (simp add: links_def)

lemma write_slot_effect:
  assumes "read_slot s sl = Inr q"
  shows "write_slot s sl v =
           Inr (s\<lparr>heap := (\<lambda>x. if Some x = slot_holder sl
                                then map_option (slot_set sl v) (heap s x) else heap s x),
                  root := (if sl = Root_slot then v else root s)\<rparr>)"
  using assms
  by (cases sl) (auto simp: read_slot_def write_slot_def upd_node_def fun_eq_iff split: option.splits)

subsection \<open>What one rotation does to the heap\<close>

lemma left_rotate_links_effect:
  assumes rs: "read_slot s sl = Inr q"
    and a: "heap s a = Some na" and b: "heap s b = Some nb" and ab: "a \<noteq> b"
    and c: "c \<noteq> Some a" "c \<noteq> Some b"
    and p: "slot_holder sl \<noteq> Some a" "slot_holder sl \<noteq> Some b" "slot_holder sl \<noteq> c \<or> c = None"
    and res: "left_rotate_links s sl a b c p = Inr s'"
  shows "heap s' = (\<lambda>x.
           (if x = a then Some (na\<lparr>parent := Some b, right := c\<rparr>)
            else if x = b then Some (nb\<lparr>parent := p, left := Some a\<rparr>)
            else if Some x = c then map_option (\<lambda>n. n\<lparr>parent := Some a\<rparr>) (heap s x)
            else if Some x = slot_holder sl then map_option (slot_set sl (Some b)) (heap s x)
            else heap s x))"
    and "root s' = (if sl = Root_slot then Some b else root s)"
    and "freed s' = freed s"
proof -
  note ws = write_slot_effect[OF rs, of "Some b"]
  show "heap s' = (\<lambda>x.
           (if x = a then Some (na\<lparr>parent := Some b, right := c\<rparr>)
            else if x = b then Some (nb\<lparr>parent := p, left := Some a\<rparr>)
            else if Some x = c then map_option (\<lambda>n. n\<lparr>parent := Some a\<rparr>) (heap s x)
            else if Some x = slot_holder sl then map_option (slot_set sl (Some b)) (heap s x)
            else heap s x))"
  proof (cases c)
    case None
    with res a b ab p show ?thesis
      by (auto simp: left_rotate_links_def ws Let_def fun_eq_iff)
  next
    case (Some cx)
    with res a b ab p c show ?thesis
      by (auto simp: left_rotate_links_def ws Let_def fun_eq_iff split: option.splits)
  qed
  show "root s' = (if sl = Root_slot then Some b else root s)"
    using res by (cases c) (auto simp: left_rotate_links_def ws Let_def split: option.splits)
  show "freed s' = freed s"
    using res by (cases c) (auto simp: left_rotate_links_def ws Let_def split: option.splits)
qed

lemma left_rotate_links_alloc:
  assumes "left_rotate_links s sl a b (Some cx) p = Inr s'" "cx \<noteq> a" "cx \<noteq> b" "slot_holder sl \<noteq> Some cx"
    "read_slot s sl = Inr q"
  shows "heap s cx \<noteq> None"
  using assms
  by (auto simp: left_rotate_links_def write_slot_effect[OF assms(5)] Let_def split: option.splits)

lemma right_rotate_links_effect:
  assumes rs: "read_slot s sl = Inr q"
    and a: "heap s a = Some na" and b: "heap s b = Some nb" and ab: "a \<noteq> b"
    and c: "c \<noteq> Some a" "c \<noteq> Some b"
    and p: "slot_holder sl \<noteq> Some a" "slot_holder sl \<noteq> Some b" "slot_holder sl \<noteq> c \<or> c = None"
    and res: "right_rotate_links s sl a b c p = Inr s'"
  shows "heap s' = (\<lambda>x.
           (if x = a then Some (na\<lparr>parent := Some b, left := c\<rparr>)
            else if x = b then Some (nb\<lparr>parent := p, right := Some a\<rparr>)
            else if Some x = c then map_option (\<lambda>n. n\<lparr>parent := Some a\<rparr>) (heap s x)
            else if Some x = slot_holder sl then map_option (slot_set sl (Some b)) (heap s x)
            else heap s x))"
    and "root s' = (if sl = Root_slot then Some b else root s)"
    and "freed s' = freed s"
proof -
  note ws = write_slot_effect[OF rs, of "Some b"]
  show "heap s' = (\<lambda>x.
           (if x = a then Some (na\<lparr>parent := Some b, left := c\<rparr>)
            else if x = b then Some (nb\<lparr>parent := p, right := Some a\<rparr>)
            else if Some x = c then map_option (\<lambda>n. n\<lparr>parent := Some a\<rparr>) (heap s x)
            else if Some x = slot_holder sl then map_option (slot_set sl (Some b)) (heap s x)
            else heap s x))"
  proof (cases c)
    case None
    with res a b ab p show ?thesis
      by (auto simp: right_rotate_links_def ws Let_def fun_eq_iff)
  next
    case (Some cx)
    with res a b ab p c show ?thesis
      by (auto simp: right_rotate_links_def ws Let_def fun_eq_iff split: option.splits)
  qed
  show "root s' = (if sl = Root_slot then Some b else root s)"
    using res by (cases c) (auto simp: right_rotate_links_def ws Let_def split: option.splits)
  show "freed s' = freed s"
    using res by (cases c) (auto simp: right_rotate_links_def ws Let_def split: option.splits)
qed

lemma right_rotate_links_alloc:
  assumes "right_rotate_links s sl a b (Some cx) p = Inr s'" "cx \<noteq> a" "cx \<noteq> b" "slot_holder sl \<noteq> Some cx"
    "read_slot s sl = Inr q"
  shows "heap s cx \<noteq> None"
  using assms
  by (auto simp: right_rotate_links_def write_slot_effect[OF assms(5)] Let_def split: option.splits)

lemma left_rotate_imbalance_effect:
  assumes a: "heap s a = Some na" and b: "heap s b = Some nb" and ab: "a \<noteq> b"
    and res: "left_rotate_imbalance s a b = Inr s'"
  shows "s' = s\<lparr>heap := (heap s)
              (a \<mapsto> na\<lparr>imbalance := left_new_a (imbalance na) (imbalance nb)\<rparr>,
               b \<mapsto> nb\<lparr>imbalance := left_new_b (imbalance na) (imbalance nb)\<rparr>)\<rparr>"
    and "\<bar>left_new_a (imbalance na) (imbalance nb)\<bar> \<le> 1"
    and "\<bar>left_new_b (imbalance na) (imbalance nb)\<bar> \<le> 1"
proof -
  have ia: "imbalance_of s a = imbalance na" and ib: "imbalance_of s b = imbalance nb"
    using a b by (simp_all add: imbalance_of_def)
  let ?s1 = "upd_node s a (\<lambda>n. n\<lparr>imbalance := left_new_a (imbalance na) (imbalance nb)\<rparr>)"
  have i1: "imbalance_of ?s1 a = left_new_a (imbalance na) (imbalance nb)"
    "imbalance_of ?s1 b = imbalance nb"
    using a b ab by (simp_all add: imbalance_of_def)
  let ?s2 = "upd_node ?s1 b (\<lambda>n. n\<lparr>imbalance := left_new_b (imbalance na) (imbalance nb)\<rparr>)"
  have i2: "imbalance_of ?s2 a = left_new_a (imbalance na) (imbalance nb)"
    "imbalance_of ?s2 b = left_new_b (imbalance na) (imbalance nb)"
    using a b ab by (simp_all add: imbalance_of_def)
  have unf: "left_rotate_imbalance s a b =
      (if \<not> int_ok (left_new_a (imbalance na) (imbalance nb)) then Inl Signed_overflow
       else if \<not> int_ok (left_new_b (imbalance na) (imbalance nb)) then Inl Signed_overflow
       else if \<not> (left_new_a (imbalance na) (imbalance nb) \<ge> - 1 \<and> left_new_a (imbalance na) (imbalance nb) \<le> 1) then Inl Assertion_failed
       else if \<not> (left_new_b (imbalance na) (imbalance nb) \<ge> - 1 \<and> left_new_b (imbalance na) (imbalance nb) \<le> 1) then Inl Assertion_failed
       else Inr ?s2)"
    unfolding left_rotate_imbalance_def Let_def ia ib
      left_new_a_def[symmetric, of "imbalance na" "imbalance nb"] i1
    unfolding left_new_b_def[symmetric] i2 by simp
  have s2: "?s2 = s\<lparr>heap := (heap s)
              (a \<mapsto> na\<lparr>imbalance := left_new_a (imbalance na) (imbalance nb)\<rparr>,
               b \<mapsto> nb\<lparr>imbalance := left_new_b (imbalance na) (imbalance nb)\<rparr>)\<rparr>"
    using a b ab by (simp add: upd_node_def)
  from res show "s' = s\<lparr>heap := (heap s)
              (a \<mapsto> na\<lparr>imbalance := left_new_a (imbalance na) (imbalance nb)\<rparr>,
               b \<mapsto> nb\<lparr>imbalance := left_new_b (imbalance na) (imbalance nb)\<rparr>)\<rparr>"
    unfolding unf s2 by (simp split: if_splits)
  from res show "\<bar>left_new_a (imbalance na) (imbalance nb)\<bar> \<le> 1"
    unfolding unf by (auto split: if_splits)
  from res show "\<bar>left_new_b (imbalance na) (imbalance nb)\<bar> \<le> 1"
    unfolding unf by (auto split: if_splits)
qed

lemma right_rotate_imbalance_effect:
  assumes a: "heap s a = Some na" and b: "heap s b = Some nb" and ab: "a \<noteq> b"
    and res: "right_rotate_imbalance s a b = Inr s'"
  shows "s' = s\<lparr>heap := (heap s)
              (a \<mapsto> na\<lparr>imbalance := right_new_a (imbalance na) (imbalance nb)\<rparr>,
               b \<mapsto> nb\<lparr>imbalance := right_new_b (imbalance na) (imbalance nb)\<rparr>)\<rparr>"
    and "\<bar>right_new_a (imbalance na) (imbalance nb)\<bar> \<le> 1"
    and "\<bar>right_new_b (imbalance na) (imbalance nb)\<bar> \<le> 1"
proof -
  have ia: "imbalance_of s a = imbalance na" and ib: "imbalance_of s b = imbalance nb"
    using a b by (simp_all add: imbalance_of_def)
  let ?s1 = "upd_node s a (\<lambda>n. n\<lparr>imbalance := right_new_a (imbalance na) (imbalance nb)\<rparr>)"
  have i1: "imbalance_of ?s1 a = right_new_a (imbalance na) (imbalance nb)"
    "imbalance_of ?s1 b = imbalance nb"
    using a b ab by (simp_all add: imbalance_of_def)
  let ?s2 = "upd_node ?s1 b (\<lambda>n. n\<lparr>imbalance := right_new_b (imbalance na) (imbalance nb)\<rparr>)"
  have i2: "imbalance_of ?s2 a = right_new_a (imbalance na) (imbalance nb)"
    "imbalance_of ?s2 b = right_new_b (imbalance na) (imbalance nb)"
    using a b ab by (simp_all add: imbalance_of_def)
  have unf: "right_rotate_imbalance s a b =
      (if \<not> int_ok (right_new_a (imbalance na) (imbalance nb)) then Inl Signed_overflow
       else if \<not> int_ok (right_new_b (imbalance na) (imbalance nb)) then Inl Signed_overflow
       else if \<not> (right_new_a (imbalance na) (imbalance nb) \<ge> - 1 \<and> right_new_a (imbalance na) (imbalance nb) \<le> 1) then Inl Assertion_failed
       else if \<not> (right_new_b (imbalance na) (imbalance nb) \<ge> - 1 \<and> right_new_b (imbalance na) (imbalance nb) \<le> 1) then Inl Assertion_failed
       else Inr ?s2)"
    unfolding right_rotate_imbalance_def Let_def ia ib
      right_new_a_def[symmetric, of "imbalance na" "imbalance nb"] i1
    unfolding right_new_b_def[symmetric] i2 by simp
  have s2: "?s2 = s\<lparr>heap := (heap s)
              (a \<mapsto> na\<lparr>imbalance := right_new_a (imbalance na) (imbalance nb)\<rparr>,
               b \<mapsto> nb\<lparr>imbalance := right_new_b (imbalance na) (imbalance nb)\<rparr>)\<rparr>"
    using a b ab by (simp add: upd_node_def)
  from res show "s' = s\<lparr>heap := (heap s)
              (a \<mapsto> na\<lparr>imbalance := right_new_a (imbalance na) (imbalance nb)\<rparr>,
               b \<mapsto> nb\<lparr>imbalance := right_new_b (imbalance na) (imbalance nb)\<rparr>)\<rparr>"
    unfolding unf s2 by (simp split: if_splits)
  from res show "\<bar>right_new_a (imbalance na) (imbalance nb)\<bar> \<le> 1"
    unfolding unf by (auto split: if_splits)
  from res show "\<bar>right_new_b (imbalance na) (imbalance nb)\<bar> \<le> 1"
    unfolding unf by (auto split: if_splits)
qed

subsection \<open>Shapes in the heap\<close>

declare rep.simps(2) [simp del]

lemma rep_Branch [simp]:
  "rep h par (Branch l a r) \<longleftrightarrow>
     links (h a) = Some (root_ptr l, root_ptr r, par) \<and> rep h (Some a) l \<and> rep h (Some a) r"
  by (auto simp: links_def rep.simps(2) split: option.splits)

lemma root_ptr_in: "root_ptr t = Some a \<Longrightarrow> a \<in> set (inorder t)"
  by (cases t) auto

lemma root_ptr_None [simp]: "root_ptr t = None \<longleftrightarrow> t = Empty"
  by (cases t) auto

lemma rep_cong:
  "(\<And>x. x \<in> set (inorder t) \<Longrightarrow> links (h' x) = links (h x)) \<Longrightarrow> rep h' par t = rep h par t"
proof (induction t arbitrary: par)
  case Empty
  show ?case by simp
next
  case (Branch l a r)
  have "rep h' (Some a) l = rep h (Some a) l" "rep h' (Some a) r = rep h (Some a) r"
    using Branch by auto
  moreover have "links (h' a) = links (h a)" using Branch.prems by simp
  ultimately show ?case by simp
qed

lemma links_reparent:
  "links (reparent p x) = map_option (\<lambda>(l, r, _). (l, r, p)) (links x)"
  by (cases x) (simp_all add: reparent_def)

lemma rep_reparent:
  assumes "rep h par t" "distinct (inorder t)"
    and "\<And>x. x \<in> set (inorder t) \<Longrightarrow>
           links (h' x) = (if Some x = root_ptr t then links (reparent par' (h x)) else links (h x))"
  shows "rep h' par' t"
proof (cases t)
  case Empty
  then show ?thesis by simp
next
  case (Branch l a r)
  have la: "links (h' a) = links (reparent par' (h a))"
    using assms(3)[of a] Branch by simp
  have "rep h' (Some a) l = rep h (Some a) l"
    using assms(2,3) Branch by (intro rep_cong) auto
  moreover have "rep h' (Some a) r = rep h (Some a) r"
    using assms(2,3) Branch by (intro rep_cong) auto
  ultimately show ?thesis
    using assms(1) Branch la by (simp add: links_reparent)
qed

lemma rep_allocated: "rep h par t \<Longrightarrow> x \<in> set (inorder t) \<Longrightarrow> h x \<noteq> None"
  by (induction t arbitrary: par) (auto simp: links_def)

subsection \<open>Positions\<close>

lemma inorder_plug: "inorder (plug fs t) = before fs @ inorder t @ after fs"
proof (induction fs arbitrary: t)
  case Nil
  show ?case by simp
next
  case (Cons f fs)
  show ?case by (cases f) (simp_all add: Cons.IH)
qed

lemma node_count_plug: "node_count (plug fs t) = length (before fs) + node_count t + length (after fs)"
proof (induction fs arbitrary: t)
  case Nil
  show ?case by simp
next
  case (Cons f fs)
  have len: "\<And>u. length (inorder u) = node_count u"
    subgoal for u by (induction u) auto
    done
  show ?case by (cases f) (simp_all add: Cons.IH len)
qed

lemma hole_par_in: "hole_par fs = Some p \<Longrightarrow> p \<in> set (before fs @ after fs)"
  by (cases fs rule: hole_slot.cases) auto

lemma slot_holder_hole [simp]: "slot_holder (hole_slot fs) = hole_par fs"
  by (cases fs rule: hole_slot.cases) auto

lemma hole_slot_Root [simp]: "hole_slot fs = Root_slot \<longleftrightarrow> fs = []"
  by (cases fs rule: hole_slot.cases) auto

lemma above_cong:
  "(\<And>x. x \<in> set (before fs @ after fs) \<Longrightarrow> links (h' x) = links (h x)) \<Longrightarrow>
   above h' rt fs q = above h rt fs q"
proof (induction h rt fs q rule: above.induct)
  case (1 h rt q)
  show ?case by simp
next
  case (2 h rt p r fs q)
  have "rep h' (Some p) r = rep h (Some p) r" using "2.prems" by (intro rep_cong) auto
  moreover have "above h' rt fs (Some p) = above h rt fs (Some p)"
    by (intro "2.IH") (use "2.prems" in auto)
  moreover have "links (h' p) = links (h p)" using "2.prems" by simp
  ultimately show ?case by simp
next
  case (3 h rt l p fs q)
  have "rep h' (Some p) l = rep h (Some p) l" using "3.prems" by (intro rep_cong) auto
  moreover have "above h' rt fs (Some p) = above h rt fs (Some p)"
    by (intro "3.IH") (use "3.prems" in auto)
  moreover have "links (h' p) = links (h p)" using "3.prems" by simp
  ultimately show ?case by simp
qed

lemma above_read_slot: "above (heap s) (root s) fs q \<Longrightarrow> read_slot s (hole_slot fs) = Inr q"
  by (cases fs rule: hole_slot.cases) (auto simp: read_slot_def links_def split: option.splits)

text \<open>Storing a new pointer in the slot of the hole, and changing nothing else above.\<close>

lemma above_store:
  assumes "above h rt fs q" "distinct (before fs @ after fs)"
    and "\<And>x. x \<in> set (before fs @ after fs) \<Longrightarrow>
           links (h' x) = (if Some x = hole_par fs
                           then links (map_option (slot_set (hole_slot fs) q') (h x))
                           else links (h x))"
    and "rt' = (if fs = [] then q' else rt)"
  shows "above h' rt' fs q'"
proof (cases fs rule: hole_slot.cases)
  case 1
  then show ?thesis using assms by simp
next
  case (2 p r fs')
  have "rep h' (Some p) r = rep h (Some p) r"
    using assms(2,3) 2 by (intro rep_cong) auto
  moreover have "above h' rt fs' (Some p) = above h rt fs' (Some p)"
    using assms(2,3) 2 by (intro above_cong) auto
  moreover have "links (h' p) = links (map_option (slot_set (hole_slot fs) q') (h p))"
    using assms(3)[of p] 2 by simp
  ultimately show ?thesis using assms(1,4) 2 by (auto simp: links_def)
next
  case (3 l p fs')
  have "rep h' (Some p) l = rep h (Some p) l"
    using assms(2,3) 3 by (intro rep_cong) auto
  moreover have "above h' rt fs' (Some p) = above h rt fs' (Some p)"
    using assms(2,3) 3 by (intro above_cong) auto
  moreover have "links (h' p) = links (map_option (slot_set (hole_slot fs) q') (h p))"
    using assms(3)[of p] 3 by simp
  ultimately show ?thesis using assms(1,4) 3 by (auto simp: links_def)
qed

lemma zip_rep_Nil: "zip_rep s [] t = tree_rep s t"
  by (auto simp: zip_rep_def tree_rep_def)

lemma zip_rep_Cons: "zip_rep s (f # fs) t = zip_rep s fs (fill f t)"
proof (cases f)
  case (Left_of p r)
  have "distinct (before fs @ inorder t @ p # inorder r @ after fs) =
        distinct (before fs @ (inorder t @ p # inorder r) @ after fs)" by simp
  then show ?thesis unfolding Left_of zip_rep_def by (simp del: distinct_append) blast
next
  case (Right_of l p)
  have "distinct ((before fs @ inorder l @ [p]) @ inorder t @ after fs) =
        distinct (before fs @ (inorder l @ p # inorder t) @ after fs)" by simp
  then show ?thesis unfolding Right_of zip_rep_def
    by (simp del: distinct_append append_assoc) blast
qed

lemma zip_rep_plug: "zip_rep s fs t = tree_rep s (plug fs t)"
  by (induction fs arbitrary: t) (simp_all add: zip_rep_Nil zip_rep_Cons)

text \<open>
  Replacing the subtree in the hole: the new subtree is in the heap, the slot of the hole
  points to it, and the rest of the heap has the links it had.
\<close>

lemma zip_rep_replace:
  assumes z: "zip_rep s fs t"
    and ctx: "\<And>x. x \<in> set (before fs @ after fs) \<Longrightarrow>
           links (heap s' x) = (if Some x = hole_par fs
                           then links (map_option (slot_set (hole_slot fs) (root_ptr t')) (heap s x))
                           else links (heap s x))"
    and rt: "root s' = (if fs = [] then root_ptr t' else root s)"
    and sub: "rep (heap s') (hole_par fs) t'"
    and dist: "distinct (before fs @ inorder t' @ after fs)"
  shows "zip_rep s' fs t'"
proof -
  have d: "distinct (before fs @ after fs)" using dist by auto
  have a: "above (heap s) (root s) fs (root_ptr t)" using z by (simp add: zip_rep_def)
  have "above (heap s') (root s') fs (root_ptr t')"
    by (rule above_store[OF a d ctx rt])
  then show ?thesis using sub dist unfolding zip_rep_def by blast
qed

subsection \<open>Rotations on a tree in the heap\<close>

lemma same_data_refl [simp]: "same_data s s"
  by (simp add: same_data_def)

lemma same_data_trans: "same_data s s' \<Longrightarrow> same_data s' s'' \<Longrightarrow> same_data s s''"
  by (simp add: same_data_def)

lemma slot_set_payload [simp]:
  "key (slot_set sl v n) = key n" "imbalance (slot_set sl v n) = imbalance n"
  by (cases sl; simp)+

lemma tree_left_rotate_zip:
  assumes z: "zip_rep s fs (Branch l a r)"
    and res: "tree_left_rotate s (hole_slot fs) = Inr s'"
  shows "\<exists>c b e. r = Branch c b e \<and> zip_rep s' fs (Branch (Branch l a c) b e) \<and>
           same_data s s' \<and>
           (\<forall>x. x \<noteq> a \<longrightarrow> x \<noteq> b \<longrightarrow> imbalance_of s' x = imbalance_of s x) \<and>
           imbalance_of s a > 0 \<and>
           imbalance_of s' a = left_new_a (imbalance_of s a) (imbalance_of s b) \<and>
           imbalance_of s' b = left_new_b (imbalance_of s a) (imbalance_of s b) \<and>
           \<bar>imbalance_of s' a\<bar> \<le> 1 \<and> \<bar>imbalance_of s' b\<bar> \<le> 1"
proof -
  let ?h = "heap s"
  from z have ab: "above ?h (root s) fs (Some a)"
    and la: "links (?h a) = Some (root_ptr l, root_ptr r, hole_par fs)"
    and rl: "rep ?h (Some a) l" and rr: "rep ?h (Some a) r"
    and dist: "distinct (before fs @ inorder (Branch l a r) @ after fs)"
    by (simp_all add: zip_rep_def)
  have rs: "read_slot s (hole_slot fs) = Inr (Some a)" by (rule above_read_slot[OF ab])
  from la obtain na where na: "?h a = Some na" "left na = root_ptr l" "right na = root_ptr r"
    "parent na = hole_par fs" by (auto simp: links_def)
  from res rs na have "r \<noteq> Empty" by (auto simp: tree_left_rotate_def)
  then obtain c b e where r: "r = Branch c b e" by (cases r) auto
  from res rs na r obtain nb where b: "root_ptr r = Some b" "?h b = Some nb"
    by (auto simp: tree_left_rotate_def split: option.splits)
  from rr r b have lb: "left nb = root_ptr c" "right nb = root_ptr e" "parent nb = Some a"
    and rc: "rep ?h (Some b) c" and re: "rep ?h (Some b) e" by (auto simp: links_def)
  from res rs na b r lb obtain s1 where pos: "imbalance na > 0"
    and s1: "left_rotate_links s (hole_slot fs) a b (root_ptr c) (hole_par fs) = Inr s1"
    and s': "left_rotate_imbalance s1 a b = Inr s'"
    by (auto simp: tree_left_rotate_def bind_r_eq_Inr split: if_splits)
  have d0: "a \<noteq> b" "root_ptr c \<noteq> Some a" "root_ptr c \<noteq> Some b"
    "hole_par fs \<noteq> Some a" "hole_par fs \<noteq> Some b"
    using dist r root_ptr_in[of c] hole_par_in[of fs] by auto
  have "False" if "root_ptr c = Some x" "hole_par fs = Some x" for x
    using dist r root_ptr_in[OF that(1)] hole_par_in[OF that(2)] by auto
  then have "hole_par fs \<noteq> root_ptr c \<or> root_ptr c = None"
    by (cases "root_ptr c") auto
  note d1 = d0 this
  have p: "slot_holder (hole_slot fs) \<noteq> Some a" "slot_holder (hole_slot fs) \<noteq> Some b"
    "slot_holder (hole_slot fs) \<noteq> root_ptr c \<or> root_ptr c = None"
    using d1 by simp_all
  note eff = left_rotate_links_effect[OF rs na(1) b(2) d1(1,2,3) p s1,
      unfolded slot_holder_hole hole_slot_Root, folded reparent_def]
  have h1: "heap s1 = (\<lambda>x.
           (if x = a then Some (na\<lparr>parent := Some b, right := root_ptr c\<rparr>)
            else if x = b then Some (nb\<lparr>parent := hole_par fs, left := Some a\<rparr>)
            else if Some x = root_ptr c then reparent (Some a) (?h x)
            else if Some x = hole_par fs then map_option (slot_set (hole_slot fs) (Some b)) (?h x)
            else ?h x))"
    and r1: "root s1 = (if fs = [] then Some b else root s)" and f1: "freed s1 = freed s"
    by (rule eff)+
  have a1: "heap s1 a = Some (na\<lparr>parent := Some b, right := root_ptr c\<rparr>)"
    and b1: "heap s1 b = Some (nb\<lparr>parent := hole_par fs, left := Some a\<rparr>)"
    using d1 by (simp_all add: h1)
  note ieff = left_rotate_imbalance_effect[OF a1 b1 d1(1) s', simplified]
  let ?ia = "left_new_a (imbalance na) (imbalance nb)"
  let ?ib = "left_new_b (imbalance na) (imbalance nb)"
  have h': "heap s' = (\<lambda>x.
           (if x = a then Some (na\<lparr>parent := Some b, right := root_ptr c, imbalance := ?ia\<rparr>)
            else if x = b then Some (nb\<lparr>parent := hole_par fs, left := Some a, imbalance := ?ib\<rparr>)
            else if Some x = root_ptr c then reparent (Some a) (?h x)
            else if Some x = hole_par fs then map_option (slot_set (hole_slot fs) (Some b)) (?h x)
            else ?h x))"
    and r': "root s' = (if fs = [] then Some b else root s)" and f': "freed s' = freed s"
    using ieff(1) d1(1) by (auto simp: h1 r1 f1 fun_eq_iff)
  let ?t' = "Branch (Branch l a c) b e"
  have "zip_rep s' fs ?t'"
  proof (rule zip_rep_replace[OF z])
    fix x assume "x \<in> set (before fs @ after fs)"
    then have "x \<noteq> a" "x \<noteq> b" "Some x \<noteq> root_ptr c"
      using dist r root_ptr_in[of c x] by auto
    then show "links (heap s' x) =
        (if Some x = hole_par fs
         then links (map_option (slot_set (hole_slot fs) (root_ptr ?t')) (?h x))
         else links (?h x))"
      by (simp add: h')
  next
    show "root s' = (if fs = [] then root_ptr ?t' else root s)" by (simp add: r')
  next
    have "rep (heap s') (Some b) e = rep ?h (Some b) e"
    proof (rule rep_cong)
      fix x assume "x \<in> set (inorder e)"
      then have "x \<noteq> a" "x \<noteq> b" "Some x \<noteq> root_ptr c" "Some x \<noteq> hole_par fs"
        using dist r root_ptr_in[of c x] hole_par_in[of fs x] by auto
      then show "links (heap s' x) = links (?h x)" by (simp add: h')
    qed
    moreover have "rep (heap s') (Some a) l = rep ?h (Some a) l"
    proof (rule rep_cong)
      fix x assume "x \<in> set (inorder l)"
      then have "x \<noteq> a" "x \<noteq> b" "Some x \<noteq> root_ptr c" "Some x \<noteq> hole_par fs"
        using dist r root_ptr_in[of c x] hole_par_in[of fs x] by auto
      then show "links (heap s' x) = links (?h x)" by (simp add: h')
    qed
    moreover have "rep (heap s') (Some a) c"
    proof (rule rep_reparent[OF rc])
      show "distinct (inorder c)" using dist r by simp
    next
      fix x assume "x \<in> set (inorder c)"
      then have "x \<noteq> a" "x \<noteq> b" "Some x \<noteq> hole_par fs"
        using dist r hole_par_in[of fs x] by auto
      then show "links (heap s' x) =
          (if Some x = root_ptr c then links (reparent (Some a) (?h x)) else links (?h x))"
        by (simp add: h')
    qed
    ultimately show "rep (heap s') (hole_par fs) ?t'"
      using rl re na lb d1 by (simp add: h')
  next
    show "distinct (before fs @ inorder ?t' @ after fs)" using dist r by simp
  qed
  moreover have "same_data s s'"
    using na b d1 unfolding same_data_def
    by (auto simp: h' f' key_of_def reparent_def split: option.splits)
  moreover have "\<forall>x. x \<noteq> a \<longrightarrow> x \<noteq> b \<longrightarrow> imbalance_of s' x = imbalance_of s x"
    by (auto simp: h' imbalance_of_def reparent_def split: option.splits)
  moreover have "imbalance_of s a = imbalance na" "imbalance_of s b = imbalance nb"
    "imbalance_of s' a = ?ia" "imbalance_of s' b = ?ib"
    using na b d1 by (simp_all add: imbalance_of_def h')
  ultimately show ?thesis using r pos ieff(2,3) by simp
qed

lemma tree_right_rotate_zip:
  assumes z: "zip_rep s fs (Branch l a r)"
    and res: "tree_right_rotate s (hole_slot fs) = Inr s'"
  shows "\<exists>e b c. l = Branch e b c \<and> zip_rep s' fs (Branch e b (Branch c a r)) \<and>
           same_data s s' \<and>
           (\<forall>x. x \<noteq> a \<longrightarrow> x \<noteq> b \<longrightarrow> imbalance_of s' x = imbalance_of s x) \<and>
           imbalance_of s a < 0 \<and>
           imbalance_of s' a = right_new_a (imbalance_of s a) (imbalance_of s b) \<and>
           imbalance_of s' b = right_new_b (imbalance_of s a) (imbalance_of s b) \<and>
           \<bar>imbalance_of s' a\<bar> \<le> 1 \<and> \<bar>imbalance_of s' b\<bar> \<le> 1"
proof -
  let ?h = "heap s"
  from z have ab: "above ?h (root s) fs (Some a)"
    and la: "links (?h a) = Some (root_ptr l, root_ptr r, hole_par fs)"
    and rl: "rep ?h (Some a) l" and rr: "rep ?h (Some a) r"
    and dist: "distinct (before fs @ inorder (Branch l a r) @ after fs)"
    by (simp_all add: zip_rep_def)
  have rs: "read_slot s (hole_slot fs) = Inr (Some a)" by (rule above_read_slot[OF ab])
  from la obtain na where na: "?h a = Some na" "left na = root_ptr l" "right na = root_ptr r"
    "parent na = hole_par fs" by (auto simp: links_def)
  from res rs na have "l \<noteq> Empty" by (auto simp: tree_right_rotate_def split: if_splits)
  then obtain e b c where r: "l = Branch e b c" by (cases l) auto
  from res rs na r obtain nb where b: "root_ptr l = Some b" "?h b = Some nb"
    by (auto simp: tree_right_rotate_def split: option.splits if_splits)
  from rl r b have lb: "left nb = root_ptr e" "right nb = root_ptr c" "parent nb = Some a"
    and rc: "rep ?h (Some b) c" and re: "rep ?h (Some b) e" by (auto simp: links_def)
  from res rs na b r lb obtain s1 where pos: "imbalance na < 0"
    and s1: "right_rotate_links s (hole_slot fs) a b (root_ptr c) (hole_par fs) = Inr s1"
    and s': "right_rotate_imbalance s1 a b = Inr s'"
    by (auto simp: tree_right_rotate_def bind_r_eq_Inr split: if_splits)
  have d0: "a \<noteq> b" "root_ptr c \<noteq> Some a" "root_ptr c \<noteq> Some b"
    "hole_par fs \<noteq> Some a" "hole_par fs \<noteq> Some b"
    using dist r root_ptr_in[of c] hole_par_in[of fs] by auto
  have "False" if "root_ptr c = Some x" "hole_par fs = Some x" for x
    using dist r root_ptr_in[OF that(1)] hole_par_in[OF that(2)] by auto
  then have "hole_par fs \<noteq> root_ptr c \<or> root_ptr c = None"
    by (cases "root_ptr c") auto
  note d1 = d0 this
  have p: "slot_holder (hole_slot fs) \<noteq> Some a" "slot_holder (hole_slot fs) \<noteq> Some b"
    "slot_holder (hole_slot fs) \<noteq> root_ptr c \<or> root_ptr c = None"
    using d1 by simp_all
  note eff = right_rotate_links_effect[OF rs na(1) b(2) d1(1,2,3) p s1,
      unfolded slot_holder_hole hole_slot_Root, folded reparent_def]
  have h1: "heap s1 = (\<lambda>x.
           (if x = a then Some (na\<lparr>parent := Some b, left := root_ptr c\<rparr>)
            else if x = b then Some (nb\<lparr>parent := hole_par fs, right := Some a\<rparr>)
            else if Some x = root_ptr c then reparent (Some a) (?h x)
            else if Some x = hole_par fs then map_option (slot_set (hole_slot fs) (Some b)) (?h x)
            else ?h x))"
    and r1: "root s1 = (if fs = [] then Some b else root s)" and f1: "freed s1 = freed s"
    by (rule eff)+
  have a1: "heap s1 a = Some (na\<lparr>parent := Some b, left := root_ptr c\<rparr>)"
    and b1: "heap s1 b = Some (nb\<lparr>parent := hole_par fs, right := Some a\<rparr>)"
    using d1 by (simp_all add: h1)
  note ieff = right_rotate_imbalance_effect[OF a1 b1 d1(1) s', simplified]
  let ?ia = "right_new_a (imbalance na) (imbalance nb)"
  let ?ib = "right_new_b (imbalance na) (imbalance nb)"
  have h': "heap s' = (\<lambda>x.
           (if x = a then Some (na\<lparr>parent := Some b, left := root_ptr c, imbalance := ?ia\<rparr>)
            else if x = b then Some (nb\<lparr>parent := hole_par fs, right := Some a, imbalance := ?ib\<rparr>)
            else if Some x = root_ptr c then reparent (Some a) (?h x)
            else if Some x = hole_par fs then map_option (slot_set (hole_slot fs) (Some b)) (?h x)
            else ?h x))"
    and r': "root s' = (if fs = [] then Some b else root s)" and f': "freed s' = freed s"
    using ieff(1) d1(1) by (auto simp: h1 r1 f1 fun_eq_iff)
  let ?t' = "Branch e b (Branch c a r)"
  have "zip_rep s' fs ?t'"
  proof (rule zip_rep_replace[OF z])
    fix x assume "x \<in> set (before fs @ after fs)"
    then have "x \<noteq> a" "x \<noteq> b" "Some x \<noteq> root_ptr c"
      using dist r root_ptr_in[of c x] by auto
    then show "links (heap s' x) =
        (if Some x = hole_par fs
         then links (map_option (slot_set (hole_slot fs) (root_ptr ?t')) (?h x))
         else links (?h x))"
      by (simp add: h')
  next
    show "root s' = (if fs = [] then root_ptr ?t' else root s)" by (simp add: r')
  next
    have "rep (heap s') (Some b) e = rep ?h (Some b) e"
    proof (rule rep_cong)
      fix x assume "x \<in> set (inorder e)"
      then have "x \<noteq> a" "x \<noteq> b" "Some x \<noteq> root_ptr c" "Some x \<noteq> hole_par fs"
        using dist r root_ptr_in[of c x] hole_par_in[of fs x] by auto
      then show "links (heap s' x) = links (?h x)" by (simp add: h')
    qed
    moreover have "rep (heap s') (Some a) r = rep ?h (Some a) r"
    proof (rule rep_cong)
      fix x assume "x \<in> set (inorder r)"
      then have "x \<noteq> a" "x \<noteq> b" "Some x \<noteq> root_ptr c" "Some x \<noteq> hole_par fs"
        using dist r root_ptr_in[of c x] hole_par_in[of fs x] by auto
      then show "links (heap s' x) = links (?h x)" by (simp add: h')
    qed
    moreover have "rep (heap s') (Some a) c"
    proof (rule rep_reparent[OF rc])
      show "distinct (inorder c)" using dist r by simp
    next
      fix x assume "x \<in> set (inorder c)"
      then have "x \<noteq> a" "x \<noteq> b" "Some x \<noteq> hole_par fs"
        using dist r hole_par_in[of fs x] by auto
      then show "links (heap s' x) =
          (if Some x = root_ptr c then links (reparent (Some a) (?h x)) else links (?h x))"
        by (simp add: h')
    qed
    ultimately show "rep (heap s') (hole_par fs) ?t'"
      using rr re na lb d1 by (simp add: h')
  next
    show "distinct (before fs @ inorder ?t' @ after fs)" using dist r by simp
  qed
  moreover have "same_data s s'"
    using na b d1 unfolding same_data_def
    by (auto simp: h' f' key_of_def reparent_def split: option.splits)
  moreover have "\<forall>x. x \<noteq> a \<longrightarrow> x \<noteq> b \<longrightarrow> imbalance_of s' x = imbalance_of s x"
    by (auto simp: h' imbalance_of_def reparent_def split: option.splits)
  moreover have "imbalance_of s a = imbalance na" "imbalance_of s b = imbalance nb"
    "imbalance_of s' a = ?ia" "imbalance_of s' b = ?ib"
    using na b d1 by (simp_all add: imbalance_of_def h')
  ultimately show ?thesis using r pos ieff(2,3) by simp
qed

lemma zip_rep_cong:
  assumes "\<And>x. links (heap s' x) = links (heap s x)" and "root s' = root s"
  shows "zip_rep s' fs t = zip_rep s fs t"
proof -
  have "above (heap s') (root s') fs (root_ptr t) = above (heap s) (root s) fs (root_ptr t)"
    unfolding assms(2) by (rule above_cong) (rule assms(1))
  moreover have "rep (heap s') (hole_par fs) t = rep (heap s) (hole_par fs) t"
    by (rule rep_cong) (rule assms(1))
  ultimately show ?thesis by (simp add: zip_rep_def)
qed

lemma zip_rep_up: "zip_rep s fs (Branch l a r) \<Longrightarrow> zip_rep s (Right_of l a # fs) r"
  and zip_rep_up_left: "zip_rep s fs (Branch l a r) \<Longrightarrow> zip_rep s (Left_of a r # fs) l"
  by (simp_all add: zip_rep_Cons)

lemma zip_rep_inorder:
  "zip_rep s fs t \<Longrightarrow> inorder t' = inorder t \<Longrightarrow> inorder (plug fs t') = inorder (plug fs t)"
  by (simp add: inorder_plug)

text \<open>\<open>tree_rotate\<close> on the slot of a subtree: the tree stays a tree with the same nodes in
  the same order, and only imbalance fields inside the subtree change.\<close>

lemma tree_rotate_zip:
  assumes z: "zip_rep s fs (Branch l a r)"
    and res: "tree_rotate s (hole_slot fs) = Inr s'"
  shows "\<exists>t'. zip_rep s' fs t' \<and> inorder t' = inorder (Branch l a r) \<and> same_data s s' \<and>
           (\<forall>x. x \<notin> set (inorder (Branch l a r)) \<longrightarrow> imbalance_of s' x = imbalance_of s x)"
proof -
  let ?t = "Branch l a r"
  from z have ab: "above (heap s) (root s) fs (Some a)"
    and la: "links (heap s a) = Some (root_ptr l, root_ptr r, hole_par fs)"
    by (simp_all add: zip_rep_def)
  have rs: "read_slot s (hole_slot fs) = Inr (Some a)" by (rule above_read_slot[OF ab])
  from la obtain na where na: "heap s a = Some na" "left na = root_ptr l" "right na = root_ptr r"
    by (auto simp: links_def)
  consider (pos) "imbalance na = 2" | (neg) "imbalance na = - 2"
    | (other) "imbalance na \<noteq> 2" "imbalance na \<noteq> - 2" by blast
  then show ?thesis
  proof cases
    case other
    then have "s' = s" using res rs na by (simp add: tree_rotate_def)
    then show ?thesis using z by auto
  next
    case pos
    from res rs na pos obtain nr where nr: "deref s (root_ptr r) = Inr nr"
      by (auto simp: tree_rotate_def bind_r_eq_Inr)
    show ?thesis
    proof (cases "imbalance nr < 0")
      case False
      then have "tree_left_rotate s (hole_slot fs) = Inr s'"
        using res rs na pos nr by (simp add: tree_rotate_def)
      from tree_left_rotate_zip[OF z this] show ?thesis by auto
    next
      case True
      then obtain s1 where s1: "tree_right_rotate s (hole_slot (Right_of l a # fs)) = Inr s1"
        and s': "tree_left_rotate s1 (hole_slot fs) = Inr s'"
        using res rs na pos nr by (auto simp: tree_rotate_def bind_r_eq_Inr)
      from nr obtain rl b rr where r: "r = Branch rl b rr" by (cases r) auto
      have z1: "zip_rep s (Right_of l a # fs) (Branch rl b rr)"
        using z r by (simp add: zip_rep_Cons)
      from tree_right_rotate_zip[OF z1 s1] obtain e c cc where
        rl: "rl = Branch e c cc" and z2: "zip_rep s1 (Right_of l a # fs) (Branch e c (Branch cc b rr))"
        and sd1: "same_data s s1"
        and i1: "\<forall>x. x \<noteq> b \<longrightarrow> x \<noteq> c \<longrightarrow> imbalance_of s1 x = imbalance_of s x"
        by auto
      have z3: "zip_rep s1 fs (Branch l a (Branch e c (Branch cc b rr)))"
        using z2 by (simp add: zip_rep_Cons)
      from tree_left_rotate_zip[OF z3 s'] have
        z4: "zip_rep s' fs (Branch (Branch l a e) c (Branch cc b rr))"
        and sd2: "same_data s1 s'"
        and i2: "\<forall>x. x \<noteq> a \<longrightarrow> x \<noteq> c \<longrightarrow> imbalance_of s' x = imbalance_of s1 x"
        by auto
      have "inorder (Branch (Branch l a e) c (Branch cc b rr)) = inorder ?t"
        using r rl by simp
      moreover have "\<forall>x. x \<notin> set (inorder ?t) \<longrightarrow> imbalance_of s' x = imbalance_of s x"
        using i1 i2 r rl by auto
      ultimately show ?thesis using z4 same_data_trans[OF sd1 sd2] by blast
    qed
  next
    case neg
    from res rs na neg obtain nl where nl: "deref s (root_ptr l) = Inr nl"
      by (auto simp: tree_rotate_def bind_r_eq_Inr)
    show ?thesis
    proof (cases "imbalance nl > 0")
      case False
      then have "tree_right_rotate s (hole_slot fs) = Inr s'"
        using res rs na neg nl by (simp add: tree_rotate_def)
      from tree_right_rotate_zip[OF z this] show ?thesis by auto
    next
      case True
      then obtain s1 where s1: "tree_left_rotate s (hole_slot (Left_of a r # fs)) = Inr s1"
        and s': "tree_right_rotate s1 (hole_slot fs) = Inr s'"
        using res rs na neg nl by (auto simp: tree_rotate_def bind_r_eq_Inr)
      from nl obtain ll b lr where l: "l = Branch ll b lr" by (cases l) auto
      have z1: "zip_rep s (Left_of a r # fs) (Branch ll b lr)"
        using z l by (simp add: zip_rep_Cons)
      from tree_left_rotate_zip[OF z1 s1] obtain cc c e where
        lr: "lr = Branch cc c e" and z2: "zip_rep s1 (Left_of a r # fs) (Branch (Branch ll b cc) c e)"
        and sd1: "same_data s s1"
        and i1: "\<forall>x. x \<noteq> b \<longrightarrow> x \<noteq> c \<longrightarrow> imbalance_of s1 x = imbalance_of s x"
        by auto
      have z3: "zip_rep s1 fs (Branch (Branch (Branch ll b cc) c e) a r)"
        using z2 by (simp add: zip_rep_Cons)
      from tree_right_rotate_zip[OF z3 s'] have
        z4: "zip_rep s' fs (Branch (Branch ll b cc) c (Branch e a r))"
        and sd2: "same_data s1 s'"
        and i2: "\<forall>x. x \<noteq> a \<longrightarrow> x \<noteq> c \<longrightarrow> imbalance_of s' x = imbalance_of s1 x"
        by auto
      have "inorder (Branch (Branch ll b cc) c (Branch e a r)) = inorder ?t"
        using l lr by simp
      moreover have "\<forall>x. x \<notin> set (inorder ?t) \<longrightarrow> imbalance_of s' x = imbalance_of s x"
        using i1 i2 l lr by auto
      ultimately show ?thesis using z4 same_data_trans[OF sd1 sd2] by blast
    qed
  qed
qed

subsection \<open>Rebalancing on a tree in the heap\<close>

lemma rebalance_exit_Inr:
  "rebalance_exit a s = Inr s' \<longleftrightarrow> s' = s \<and> heap s a \<noteq> None \<and> \<bar>imbalance_of s a\<bar> \<le> 1"
  by (auto simp: rebalance_exit_def imbalance_of_def split: option.splits)

lemma TREE_PARENTPTR_zip:
  assumes "zip_rep s fs (Branch l a r)"
  shows "TREE_PARENTPTR s a = Inr (hole_slot fs)"
proof (cases fs rule: hole_slot.cases)
  case 1
  then show ?thesis using assms by (auto simp: zip_rep_def TREE_PARENTPTR_def links_def)
next
  case (2 p sib fs')
  then show ?thesis using assms by (auto simp: zip_rep_def TREE_PARENTPTR_def links_def)
next
  case (3 sib p fs')
  have "root_ptr sib \<noteq> Some a"
    using assms 3 root_ptr_in[of sib a] by (auto simp: zip_rep_def)
  then show ?thesis using assms 3 by (auto simp: zip_rep_def TREE_PARENTPTR_def links_def)
qed

lemma TREE_SIDEOF_zip:
  assumes "zip_rep s fs (Branch l a r)"
  shows "TREE_SIDEOF s a =
           Inr (case hole_slot fs of Root_slot \<Rightarrow> 0 | Left_slot p \<Rightarrow> - 1 | Right_slot p \<Rightarrow> 1)"
proof (cases fs rule: hole_slot.cases)
  case 1
  then show ?thesis using assms by (auto simp: zip_rep_def TREE_SIDEOF_def links_def)
next
  case (2 p sib fs')
  then show ?thesis using assms by (auto simp: zip_rep_def TREE_SIDEOF_def links_def)
next
  case (3 sib p fs')
  have "root_ptr sib \<noteq> Some a"
    using assms 3 root_ptr_in[of sib a] by (auto simp: zip_rep_def)
  then show ?thesis using assms 3 by (auto simp: zip_rep_def TREE_SIDEOF_def links_def)
qed

text \<open>Writing an imbalance field changes no link, no key and no allocation.\<close>

lemma set_imbalance_zip:
  "zip_rep (upd_node s a (\<lambda>n. n\<lparr>imbalance := i\<rparr>)) fs t = zip_rep s fs t"
proof (rule zip_rep_cong)
  fix x
  show "links (heap (upd_node s a (\<lambda>n. n\<lparr>imbalance := i\<rparr>)) x) = links (heap s x)"
    by (cases "heap s a") (auto simp: links_def)
qed simp

lemma set_imbalance_same_data: "same_data s (upd_node s a (\<lambda>n. n\<lparr>imbalance := i\<rparr>))"
  by (auto simp: same_data_def key_of_def split: option.splits)

lemma set_imbalance_of:
  "imbalance_of (upd_node s a (\<lambda>n. n\<lparr>imbalance := i\<rparr>)) x =
     (if x = a \<and> heap s a \<noteq> None then i else imbalance_of s x)"
  by (auto simp: imbalance_of_def split: option.splits)

text \<open>
  One level of \<open>tree_rebalance\<close> on the root \<open>a\<close> of the subtree in the hole: it stops
  with the shape unchanged, or it goes on with the parent, or it rotates and stops.
\<close>

lemma tree_rebalance_step:
  assumes z: "zip_rep s fs (Branch l a r)"
    and res: "tree_rebalance s a bf = Some (Inr s')"
  shows "(zip_rep s' fs (Branch l a r) \<and> same_data s s' \<and>
            (\<forall>x. x \<noteq> a \<longrightarrow> imbalance_of s' x = imbalance_of s x)) \<or>
         (\<exists>f fs' s1 side. fs = f # fs' \<and> zip_rep s1 fs (Branch l a r) \<and> same_data s s1 \<and>
            tree_rebalance s1 (frame_addr f) side = Some (Inr s')) \<or>
         (\<exists>t'. zip_rep s' fs t' \<and> inorder t' = inorder (Branch l a r) \<and> same_data s s' \<and>
            (\<forall>x. x \<notin> set (inorder (Branch l a r)) \<longrightarrow> imbalance_of s' x = imbalance_of s x))"
proof -
  from z have la: "links (heap s a) = Some (root_ptr l, root_ptr r, hole_par fs)"
    by (simp add: zip_rep_def)
  then obtain na where na: "heap s a = Some na" "parent na = hole_par fs"
    by (auto simp: links_def)
  define i where "i = imbalance na + bf"
  define s1 where "s1 = upd_node s a (\<lambda>n. n\<lparr>imbalance := i\<rparr>)"
  have z1: "zip_rep s1 fs (Branch l a r)" using z by (simp add: s1_def set_imbalance_zip)
  have sd1: "same_data s s1" by (simp add: s1_def set_imbalance_same_data)
  have i1: "\<forall>x. x \<noteq> a \<longrightarrow> imbalance_of s1 x = imbalance_of s x"
    by (simp add: s1_def set_imbalance_of)
  note unf = res[unfolded tree_rebalance.simps[of s a bf], unfolded na option.case Let_def,
      folded i_def, folded s1_def]
  from unf obtain r1 where
    r1: "(if i * bf = 0 then Some (Inr s1)
          else if i * bf = 1 then
            (case hole_par fs of
               None \<Rightarrow> Some (Inr s1)
             | Some p \<Rightarrow>
                 (case TREE_SIDEOF s1 a of
                    Inl e \<Rightarrow> Some (Inl e)
                  | Inr side \<Rightarrow> tree_rebalance s1 p side))
          else if i * bf = 2 then Some (bind_r (TREE_PARENTPTR s1 a) (tree_rotate s1))
          else Some (Inr s1)) = Some (Inr r1)"
    and ex: "rebalance_exit a r1 = Inr s'"
    by (auto simp: bind_r_eq_Inr Option.bind_eq_Some_conv split: if_splits)
  from ex have s': "s' = r1" by (simp add: rebalance_exit_Inr)
  consider (zero) "i * bf = 0" | (one) "i * bf = 1" | (two) "i * bf = 2"
    | (other) "i * bf \<noteq> 0" "i * bf \<noteq> 1" "i * bf \<noteq> 2" by blast
  then show ?thesis
  proof cases
    case zero
    then have "s' = s1" using r1 s' by simp
    then show ?thesis using z1 sd1 i1 by blast
  next
    case other
    then have "s' = s1" using r1 s' by simp
    then show ?thesis using z1 sd1 i1 by blast
  next
    case one
    show ?thesis
    proof (cases fs)
      case Nil
      then have "s' = s1" using r1 s' one by simp
      then show ?thesis using z1 sd1 i1 by blast
    next
      case (Cons f fs')
      then have "tree_rebalance s1 (frame_addr f)
          (case hole_slot fs of Root_slot \<Rightarrow> 0 | Left_slot p \<Rightarrow> - 1 | Right_slot p \<Rightarrow> 1)
           = Some (Inr s')"
        using r1 s' one by (simp add: TREE_SIDEOF_zip[OF z1])
      then show ?thesis using Cons z1 sd1 by blast
    qed
  next
    case two
    then have "tree_rotate s1 (hole_slot fs) = Inr s'"
      using r1 s' by (simp add: TREE_PARENTPTR_zip[OF z1])
    from tree_rotate_zip[OF z1 this] obtain t' where
      "zip_rep s' fs t'" "inorder t' = inorder (Branch l a r)" "same_data s1 s'"
      "\<forall>x. x \<notin> set (inorder (Branch l a r)) \<longrightarrow> imbalance_of s' x = imbalance_of s1 x"
      by blast
    then show ?thesis using same_data_trans[OF sd1] i1 by auto
  qed
qed

lemma tree_rebalance_zip:
  assumes "zip_rep s fs (Branch l a r)" and "tree_rebalance s a bf = Some (Inr s')"
  shows "\<exists>t'. tree_rep s' t' \<and> inorder t' = inorder (plug fs (Branch l a r)) \<and> same_data s s'"
  using assms
proof (induction fs arbitrary: s l a r bf)
  case Nil
  from tree_rebalance_step[OF Nil] show ?case
    by (auto simp: zip_rep_Nil)
next
  case (Cons f fs)
  from tree_rebalance_step[OF Cons.prems] consider
    (stop) t' where "zip_rep s' (f # fs) t'" "inorder t' = inorder (Branch l a r)" "same_data s s'"
    | (up) s1 side where "zip_rep s1 (f # fs) (Branch l a r)" "same_data s s1"
        "tree_rebalance s1 (frame_addr f) side = Some (Inr s')"
    by auto
  then show ?case
  proof cases
    case stop
    then have "tree_rep s' (plug (f # fs) t')" by (simp add: zip_rep_plug)
    moreover have "inorder (plug (f # fs) t') = inorder (plug (f # fs) (Branch l a r))"
      by (simp only: inorder_plug stop(2))
    ultimately show ?thesis using stop(3) by blast
  next
    case up
    obtain l' r' where fill: "fill f (Branch l a r) = Branch l' (frame_addr f) r'"
      by (cases f) auto
    have "zip_rep s1 fs (Branch l' (frame_addr f) r')"
      using up(1) by (simp add: zip_rep_Cons fill)
    from Cons.IH[OF this up(3)] obtain t' where
      "tree_rep s' t'" "inorder t' = inorder (plug fs (Branch l' (frame_addr f) r'))"
      "same_data s1 s'" by blast
    then show ?thesis using same_data_trans[OF up(2)] fill by auto
  qed
qed

subsection \<open>The search loop\<close>

lemma search_inv_sorted: "search_inv s t \<longleftrightarrow> sorted_wrt (<) (map (key_of s) (inorder t))"
proof (induction t)
  case Empty
  show ?case by simp
next
  case (Branch l a r)
  have "key_of s x < key_of s y"
    if "\<forall>x\<in>set (inorder l). key_of s x < key_of s a" "\<forall>x\<in>set (inorder r). key_of s a < key_of s x"
      "x \<in> set (inorder l)" "y \<in> set (inorder r)" for x y
    using that by (meson less_trans)
  then show ?case using Branch by (auto simp: sorted_wrt_append list_all_iff)
qed

lemma zip_rep_allocated:
  assumes "zip_rep s fs t" and "x \<in> set (before fs @ inorder t @ after fs)"
  shows "heap s x \<noteq> None"
proof -
  have "rep (heap s) None (plug fs t)" using assms(1) by (simp add: zip_rep_plug tree_rep_def)
  then show ?thesis by (rule rep_allocated) (use assms(2) in \<open>simp add: inorder_plug\<close>)
qed

lemma tree_put_loop_descend:
  assumes "zip_rep s fs t"
  shows "tree_put_loop s k (hole_slot fs) (hole_par fs) =
           Some (Inr (case descend s k fs t of
                        None \<Rightarrow> Found
                      | Some fs' \<Rightarrow> Vacant (hole_slot fs') (hole_par fs')))"
  using assms
proof (induction t arbitrary: fs)
  case Empty
  then have "read_slot s (hole_slot fs) = Inr None"
    by (intro above_read_slot) (simp add: zip_rep_def)
  then show ?case by (subst tree_put_loop.simps) simp
next
  case (Branch l a r)
  have rs: "read_slot s (hole_slot fs) = Inr (Some a)"
    using Branch.prems by (intro above_read_slot) (simp add: zip_rep_def)
  from Branch.prems obtain na where na: "heap s a = Some na"
    by (auto simp: zip_rep_def links_def)
  then have ka: "key_of s a = key na" by (simp add: key_of_def)
  have unf: "tree_put_loop s k (hole_slot fs) (hole_par fs) =
      (if k > key na then tree_put_loop s k (hole_slot (Right_of l a # fs)) (hole_par (Right_of l a # fs))
       else if k < key na then tree_put_loop s k (hole_slot (Left_of a r # fs)) (hole_par (Left_of a r # fs))
       else Some (Inr Found))"
    by (subst tree_put_loop.simps) (simp add: rs na)
  have zr: "zip_rep s (Right_of l a # fs) r" and zl: "zip_rep s (Left_of a r # fs) l"
    using Branch.prems by (simp_all add: zip_rep_Cons)
  show ?case
    unfolding unf Branch.IH(1)[OF zl] Branch.IH(2)[OF zr] by (simp add: ka)
qed

lemma descend_None: "descend s k fs t = None \<Longrightarrow> k \<in> key_of s ` set (inorder t)"
  by (induction t arbitrary: fs) (auto split: if_splits)

lemma descend_plug: "descend s k fs t = Some fs' \<Longrightarrow> plug fs' Empty = plug fs t"
  by (induction t arbitrary: fs) (auto split: if_splits)

lemma descend_zip: "descend s k fs t = Some fs' \<Longrightarrow> zip_rep s fs t \<Longrightarrow> zip_rep s fs' Empty"
proof (induction t arbitrary: fs)
  case Empty
  then show ?case by simp
next
  case (Branch l a r)
  have zr: "zip_rep s (Right_of l a # fs) r" and zl: "zip_rep s (Left_of a r # fs) l"
    using Branch.prems(2) by (simp_all add: zip_rep_Cons)
  from Branch.prems(1) consider "descend s k (Right_of l a # fs) r = Some fs'"
    | "descend s k (Left_of a r # fs) l = Some fs'"
    by (auto split: if_splits)
  then show ?case using Branch.IH zr zl by cases blast+
qed

lemma descend_bounds:
  assumes "descend s k fs t = Some fs'"
    and "sorted_wrt (<) (map (key_of s) (inorder t))"
    and "\<forall>x\<in>set (before fs). key_of s x < k" and "\<forall>x\<in>set (after fs). k < key_of s x"
  shows "(\<forall>x\<in>set (before fs'). key_of s x < k) \<and> (\<forall>x\<in>set (after fs'). k < key_of s x)"
  using assms
proof (induction t arbitrary: fs)
  case Empty
  then show ?case by simp
next
  case (Branch l a r)
  have sl: "sorted_wrt (<) (map (key_of s) (inorder l))"
    and sr: "sorted_wrt (<) (map (key_of s) (inorder r))"
    and la: "\<forall>x\<in>set (inorder l). key_of s x < key_of s a"
    and ar: "\<forall>x\<in>set (inorder r). key_of s a < key_of s x"
    using Branch.prems(2) by (auto simp: sorted_wrt_append)
  from Branch.prems(1) consider
    (gt) "k > key_of s a" "descend s k (Right_of l a # fs) r = Some fs'"
    | (lt) "k < key_of s a" "descend s k (Left_of a r # fs) l = Some fs'"
    by (auto split: if_splits)
  then show ?case
  proof cases
    case gt
    have "\<forall>x\<in>set (before (Right_of l a # fs)). key_of s x < k"
      using Branch.prems(3) la gt(1) by fastforce
    moreover have "\<forall>x\<in>set (after (Right_of l a # fs)). k < key_of s x"
      using Branch.prems(4) by simp
    ultimately show ?thesis by (rule Branch.IH(2)[OF gt(2) sr])
  next
    case lt
    have "\<forall>x\<in>set (after (Left_of a r # fs)). k < key_of s x"
      using Branch.prems(4) ar lt(1) by fastforce
    moreover have "\<forall>x\<in>set (before (Left_of a r # fs)). key_of s x < k"
      using Branch.prems(3) by simp
    ultimately show ?thesis using Branch.IH(1)[OF lt(2) sl] by blast
  qed
qed

subsection \<open>Insertion into a tree in the heap\<close>

lemma tree_put_descend:
  assumes "tree_rep s t"
  shows "tree_put s k alloc =
           (case descend s k [] t of
              None \<Rightarrow> Some (Inr s)
            | Some fs \<Rightarrow>
                Option.bind
                  (case hole_par fs of
                     None \<Rightarrow> Some (Inr (tree_create_root s alloc))
                   | Some p \<Rightarrow> tree_insert_under s p (hole_slot fs = Right_slot p) alloc)
                  (\<lambda>r2. case r2 of
                     Inl e \<Rightarrow> Some (Inl e)
                   | Inr (s', None) \<Rightarrow> Some (Inr s')
                   | Inr (s', Some newNode) \<Rightarrow>
                       Some (bind_r (deref s' (Some newNode)) (\<lambda>_.
                         Inr (upd_node s' newNode (\<lambda>n. n\<lparr>key := k\<rparr>))))))"
proof -
  have "zip_rep s [] t" using assms by (simp add: zip_rep_Nil)
  from tree_put_loop_descend[OF this, of k] show ?thesis
    by (simp add: tree_put_def split: option.splits)
qed

lemma hole_par_None [simp]: "hole_par fs = None \<longleftrightarrow> fs = []"
  by (cases fs) auto

lemma tree_put_found:
  "tree_rep s t \<Longrightarrow> descend s k [] t = None \<Longrightarrow> tree_put s k alloc = Some (Inr s)"
  by (simp add: tree_put_descend)

lemma tree_put_no_alloc:
  assumes "tree_rep s t"
  shows "tree_put s k None = Some (Inr s)"
proof (cases "descend s k [] t")
  case None
  then show ?thesis using assms by (simp add: tree_put_descend)
next
  case (Some fs)
  show ?thesis
  proof (cases fs)
    case Nil
    then have "t = Empty" using descend_plug[OF Some] by simp
    then have "root s = None" using assms by (simp add: tree_rep_def)
    then show ?thesis using assms Some Nil
      by (simp add: tree_put_descend tree_create_root_def)
  next
    case (Cons f fs')
    then show ?thesis using assms Some
      by (simp add: tree_put_descend tree_insert_under_def)
  qed
qed

lemma descend_present:
  assumes "sorted_wrt (<) (map (key_of s) (inorder t))" and "k \<in> key_of s ` set (inorder t)"
  shows "descend s k [] t = None"
proof (cases "descend s k [] t")
  case None
  then show ?thesis .
next
  case (Some fs)
  from descend_bounds[OF Some assms(1)] have
    "(\<forall>x\<in>set (before fs). key_of s x < k) \<and> (\<forall>x\<in>set (after fs). k < key_of s x)" by simp
  moreover have "inorder t = before fs @ after fs"
    using descend_plug[OF Some] inorder_plug[of fs Empty] by simp
  ultimately show ?thesis using assms(2) by auto
qed

lemma hole_slot_side:
  "hole_par fs = Some p \<Longrightarrow>
   (if hole_slot fs = Right_slot p then Right_slot p else Left_slot p) = hole_slot fs"
  by (cases fs rule: hole_slot.cases) auto

text \<open>The state in which \<open>tree_insert_under\<close> starts rebalancing: the new node is a leaf.\<close>

lemma attach_zip:
  assumes z: "zip_rep s fs Empty" and p: "hole_par fs = Some p" and fresh: "heap s a = None"
  shows "\<exists>s1. attach_node s p (hole_slot fs = Right_slot p) a = Inr s1 \<and>
           zip_rep s1 fs (Branch Empty a Empty) \<and>
           heap s1 a = Some \<lparr>left = None, right = None, parent = Some p, imbalance = 0, key = 0\<rparr> \<and>
           (\<forall>x. x \<noteq> a \<longrightarrow> (heap s1 x = None) = (heap s x = None) \<and> key_of s1 x = key_of s x) \<and>
           freed s1 = freed s"
proof -
  let ?init = "\<lparr>left = None, right = None, parent = Some p, imbalance = 0, key = 0\<rparr>"
  let ?s0 = "s\<lparr>heap := (heap s)(a \<mapsto> ?init)\<rparr>"
  have ctx: "x \<noteq> a" if "x \<in> set (before fs @ after fs)" for x
    using zip_rep_allocated[OF z, of x] that fresh by auto
  have pa: "p \<noteq> a" using ctx[of p] hole_par_in[OF p] by simp
  have "above (heap ?s0) (root s) fs None = above (heap s) (root s) fs None"
    by (rule above_cong) (use ctx in auto)
  then have "above (heap ?s0) (root ?s0) fs None" using z by (simp add: zip_rep_def)
  then have rs: "read_slot ?s0 (hole_slot fs) = Inr None" by (rule above_read_slot)
  define s1 where "s1 = ?s0\<lparr>heap := (\<lambda>x. if Some x = slot_holder (hole_slot fs)
                                then map_option (slot_set (hole_slot fs) (Some a)) (heap ?s0 x)
                                else heap ?s0 x),
                  root := (if hole_slot fs = Root_slot then Some a else root ?s0)\<rparr>"
  have att: "attach_node s p (hole_slot fs = Right_slot p) a = Inr s1"
    unfolding attach_node_def Let_def hole_slot_side[OF p] write_slot_effect[OF rs] s1_def ..
  have h1: "heap s1 = (\<lambda>x. if x = p then map_option (slot_set (hole_slot fs) (Some a)) (heap s x)
                            else if x = a then Some ?init else heap s x)"
    and r1: "root s1 = root s" and f1: "freed s1 = freed s"
    using p pa by (auto simp: s1_def fun_eq_iff)
  have "zip_rep s1 fs (Branch Empty a Empty)"
  proof (rule zip_rep_replace[OF z])
    fix x assume "x \<in> set (before fs @ after fs)"
    then have "x \<noteq> a" by (rule ctx)
    then show "links (heap s1 x) =
        (if Some x = hole_par fs
         then links (map_option (slot_set (hole_slot fs) (root_ptr (Branch Empty a Empty))) (heap s x))
         else links (heap s x))"
      using p by (auto simp: h1)
  next
    show "root s1 = (if fs = [] then root_ptr (Branch Empty a Empty) else root s)"
      using p r1 by auto
  next
    show "rep (heap s1) (hole_par fs) (Branch Empty a Empty)"
      using p pa by (simp add: h1)
  next
    have "a \<notin> set (before fs @ after fs)" using ctx by blast
    moreover have "distinct (before fs @ after fs)" using z by (simp add: zip_rep_def)
    ultimately show "distinct (before fs @ inorder (Branch Empty a Empty) @ after fs)" by auto
  qed
  moreover have "heap s1 a = Some ?init" using pa by (simp add: h1)
  moreover have "\<forall>x. x \<noteq> a \<longrightarrow> (heap s1 x = None) = (heap s x = None) \<and> key_of s1 x = key_of s x"
    by (auto simp: h1 key_of_def split: option.splits)
  ultimately show ?thesis using att f1 by blast
qed

lemma set_key_tree_rep: "tree_rep (upd_node s a (\<lambda>n. n\<lparr>key := k\<rparr>)) t = tree_rep s t"
proof -
  have "zip_rep (upd_node s a (\<lambda>n. n\<lparr>key := k\<rparr>)) [] t = zip_rep s [] t"
  proof (rule zip_rep_cong)
    fix x
    show "links (heap (upd_node s a (\<lambda>n. n\<lparr>key := k\<rparr>)) x) = links (heap s x)"
      by (cases "heap s a") (auto simp: links_def)
  qed simp
  then show ?thesis by (simp add: zip_rep_Nil)
qed

text \<open>
  An insertion that creates a node and returns: the node is attached as a leaf at the
  position where the search ended, and the tree it leaves has the old nodes and the new
  one, in the order of the old tree with the new node at that position.
\<close>

lemma tree_put_new_full:
  assumes tr: "tree_rep s t" and fresh: "heap s a = None" and d: "descend s k [] t = Some fs"
    and res: "tree_put s k (Some a) = Some (Inr s')"
  shows "\<exists>s1 t' s3. (zip_rep s1 fs (Branch Empty a Empty) \<and>
           (case hole_par fs of
              None \<Rightarrow> tree_create_root s (Some a) = (s1, Some a)
            | Some p \<Rightarrow> attach_node s p (hole_slot fs = Right_slot p) a = Inr s1) \<and>
           heap s1 a = Some \<lparr>left = None, right = None, parent = hole_par fs, imbalance = 0, key = 0\<rparr> \<and>
           tree_rep s' t' \<and> inorder t' = before fs @ a # after fs \<and>
           (\<forall>x. key_of s' x = (if x = a then k else key_of s x)) \<and>
           (\<forall>x. (heap s' x = None) = (x \<noteq> a \<and> heap s x = None)) \<and> freed s' = freed s) \<and>
           (case hole_par fs of
              None \<Rightarrow> tree_create_root s (Some a) = (s3, Some a)
            | Some p \<Rightarrow>
                tree_insert_under s p (hole_slot fs = Right_slot p) (Some a) = Some (Inr (s3, Some a))) \<and>
           key_of s3 a = 0 \<and> s' = upd_node s3 a (\<lambda>n. n\<lparr>key := k\<rparr>)"
proof -
  have z0: "zip_rep s fs Empty" using descend_zip[OF d] tr by (simp add: zip_rep_Nil)
  have pl: "plug fs Empty = t" using descend_plug[OF d] by simp
  note unf = res[unfolded tree_put_descend[OF tr] d option.case]
  show ?thesis
  proof (cases fs)
    case Nil
    then have "t = Empty" using pl by simp
    then have rt: "root s = None" using tr by (simp add: tree_rep_def)
    let ?init = "\<lparr>left = None, right = None, parent = None, imbalance = 0, key = 0\<rparr>"
    define s1 where "s1 = s\<lparr>root := Some a, heap := (heap s)(a \<mapsto> ?init)\<rparr>"
    have cr: "tree_create_root s (Some a) = (s1, Some a)"
      by (simp add: tree_create_root_def s1_def)
    have s': "s' = upd_node s1 a (\<lambda>n. n\<lparr>key := k\<rparr>)"
      using unf Nil cr by (simp add: s1_def)
    have "zip_rep s1 [] (Branch Empty a Empty)"
      by (simp add: zip_rep_def s1_def)
    moreover have "tree_rep s' (Branch Empty a Empty)"
      by (simp add: s' tree_rep_def s1_def)
    moreover have "\<forall>x. key_of s' x = (if x = a then k else key_of s x)"
      by (simp add: s' s1_def key_of_def)
    moreover have "\<forall>x. (heap s' x = None) = (x \<noteq> a \<and> heap s x = None)"
      by (simp add: s' s1_def)
    moreover have "freed s' = freed s" "heap s1 a = Some ?init"
      by (simp_all add: s' s1_def)
    moreover have "key_of s1 a = 0" by (simp add: s1_def key_of_def)
    ultimately have "(zip_rep s1 fs (Branch Empty a Empty) \<and>
           (case hole_par fs of
              None \<Rightarrow> tree_create_root s (Some a) = (s1, Some a)
            | Some p \<Rightarrow> attach_node s p (hole_slot fs = Right_slot p) a = Inr s1) \<and>
           heap s1 a = Some \<lparr>left = None, right = None, parent = hole_par fs, imbalance = 0, key = 0\<rparr> \<and>
           tree_rep s' (Branch Empty a Empty) \<and>
           inorder (Branch Empty a Empty) = before fs @ a # after fs \<and>
           (\<forall>x. key_of s' x = (if x = a then k else key_of s x)) \<and>
           (\<forall>x. (heap s' x = None) = (x \<noteq> a \<and> heap s x = None)) \<and> freed s' = freed s) \<and>
           (case hole_par fs of
              None \<Rightarrow> tree_create_root s (Some a) = (s1, Some a)
            | Some p \<Rightarrow>
                tree_insert_under s p (hole_slot fs = Right_slot p) (Some a) = Some (Inr (s1, Some a))) \<and>
           key_of s1 a = 0 \<and> s' = upd_node s1 a (\<lambda>n. n\<lparr>key := k\<rparr>)"
      using Nil cr s' by simp
    then show ?thesis by blast
  next
    case (Cons f fs')
    define p where "p = frame_addr f"
    have hp: "hole_par fs = Some p" using Cons by (simp add: p_def)
    from attach_zip[OF z0 hp fresh] obtain s1 where
      att: "attach_node s p (hole_slot fs = Right_slot p) a = Inr s1"
      and z1: "zip_rep s1 fs (Branch Empty a Empty)"
      and a1: "heap s1 a = Some \<lparr>left = None, right = None, parent = Some p, imbalance = 0, key = 0\<rparr>"
      and o1: "\<forall>x. x \<noteq> a \<longrightarrow> (heap s1 x = None) = (heap s x = None) \<and> key_of s1 x = key_of s x"
      and f1: "freed s1 = freed s"
      by blast
    let ?d = "if hole_slot fs = Right_slot p then 1 else - 1 :: int"
    have iu: "tree_insert_under s p (hole_slot fs = Right_slot p) (Some a) =
        Option.bind (tree_rebalance s1 p ?d) (\<lambda>r. Some (bind_r r (\<lambda>s3. Inr (s3, Some a))))"
      using att by (simp add: tree_insert_under_def)
    note unf2 = unf[unfolded hp option.case iu]
    obtain r where r: "tree_rebalance s1 p ?d = Some r"
      using unf2 by (cases "tree_rebalance s1 p ?d") simp_all
    note unf3 = unf2[unfolded r, simplified]
    obtain s3 where r3: "r = Inr s3" using unf3 by (cases r) simp_all
    note unf4 = unf3[unfolded r3, simplified]
    have a3: "heap s3 a \<noteq> None" and s'': "s' = upd_node s3 a (\<lambda>n. n\<lparr>key := k\<rparr>)"
      using unf4 by (auto split: option.splits)
    have rb: "tree_rebalance s1 p ?d = Some (Inr s3)" using r r3 by simp
    obtain l' r' where fill: "fill f (Branch Empty a Empty) = Branch l' p r'"
      by (cases f) (auto simp: p_def)
    have "zip_rep s1 fs' (Branch l' p r')"
      using z1 Cons by (simp add: zip_rep_Cons fill)
    from tree_rebalance_zip[OF this rb] obtain t' where
      t': "tree_rep s3 t'" "inorder t' = inorder (plug fs' (Branch l' p r'))"
      and sd: "same_data s1 s3" by blast
    have e: "plug fs' (Branch l' p r') = plug fs (Branch Empty a Empty)"
      by (simp add: Cons fill)
    have io: "inorder t' = before fs @ a # after fs"
      unfolding t'(2) e inorder_plug by simp
    have "tree_rep s' t'" using t'(1) by (simp add: s'' set_key_tree_rep)
    moreover have "\<forall>x. key_of s' x = (if x = a then k else key_of s x)"
      using sd o1 a3 by (auto simp: s'' key_of_def same_data_def split: option.splits)
    moreover have "\<forall>x. (heap s' x = None) = (x \<noteq> a \<and> heap s x = None)"
      using sd o1 a3 by (auto simp: s'' same_data_def)
    moreover have "freed s' = freed s" using sd f1 by (simp add: s'' same_data_def)
    moreover have "tree_insert_under s p (hole_slot fs = Right_slot p) (Some a)
        = Some (Inr (s3, Some a))"
      unfolding iu rb by simp
    moreover have "key_of s3 a = 0"
      using sd a1 by (simp add: same_data_def key_of_def)
    ultimately have "(zip_rep s1 fs (Branch Empty a Empty) \<and>
           (case hole_par fs of
              None \<Rightarrow> tree_create_root s (Some a) = (s1, Some a)
            | Some p \<Rightarrow> attach_node s p (hole_slot fs = Right_slot p) a = Inr s1) \<and>
           heap s1 a = Some \<lparr>left = None, right = None, parent = hole_par fs, imbalance = 0, key = 0\<rparr> \<and>
           tree_rep s' t' \<and> inorder t' = before fs @ a # after fs \<and>
           (\<forall>x. key_of s' x = (if x = a then k else key_of s x)) \<and>
           (\<forall>x. (heap s' x = None) = (x \<noteq> a \<and> heap s x = None)) \<and> freed s' = freed s) \<and>
           (case hole_par fs of
              None \<Rightarrow> tree_create_root s (Some a) = (s3, Some a)
            | Some p \<Rightarrow>
                tree_insert_under s p (hole_slot fs = Right_slot p) (Some a) = Some (Inr (s3, Some a))) \<and>
           key_of s3 a = 0 \<and> s' = upd_node s3 a (\<lambda>n. n\<lparr>key := k\<rparr>)"
      using z1 att a1 hp io s'' by simp
    then show ?thesis by blast
  qed
qed

lemma tree_put_new:
  assumes tr: "tree_rep s t" and fresh: "heap s a = None" and d: "descend s k [] t = Some fs"
    and res: "tree_put s k (Some a) = Some (Inr s')"
  shows "\<exists>s1 t'. zip_rep s1 fs (Branch Empty a Empty) \<and>
           (case hole_par fs of
              None \<Rightarrow> tree_create_root s (Some a) = (s1, Some a)
            | Some p \<Rightarrow> attach_node s p (hole_slot fs = Right_slot p) a = Inr s1) \<and>
           heap s1 a = Some \<lparr>left = None, right = None, parent = hole_par fs, imbalance = 0, key = 0\<rparr> \<and>
           tree_rep s' t' \<and> inorder t' = before fs @ a # after fs \<and>
           (\<forall>x. key_of s' x = (if x = a then k else key_of s x)) \<and>
           (\<forall>x. (heap s' x = None) = (x \<noteq> a \<and> heap s x = None)) \<and> freed s' = freed s"
  using tree_put_new_full[OF assms]
  by (elim exE conjE, intro exI conjI) assumption+

subsection \<open>Invariants kept by an insertion\<close>

lemma sorted_insert_mid:
  assumes "sorted_wrt (<) (map f (xs @ ys))" and "\<forall>x\<in>set xs. f x < k" and "\<forall>x\<in>set ys. k < f x"
    and "a \<notin> set (xs @ ys)" and "\<forall>x. g x = (if x = a then k else f x)"
  shows "sorted_wrt (<) (map g (xs @ a # ys))"
proof -
  have m: "map g xs = map f xs" "map g ys = map f ys" using assms(4,5) by auto
  have "sorted_wrt (<) (map f xs @ k # map f ys)"
    using assms(1,2,3) by (auto simp: sorted_wrt_append)
  moreover have "g a = k" using assms(5) by simp
  ultimately show ?thesis by (simp add: m)
qed

lemma tree_put_inv:
  assumes "tree_rep s t" and "search_inv s t" and "alloc_fresh s alloc"
    and "tree_put s k alloc = Some (Inr s')"
  shows "\<exists>t'. tree_rep s' t' \<and> search_inv s' t' \<and>
           (alloc \<noteq> None \<longrightarrow> k \<in> key_of s' ` set (inorder t'))"
proof (cases "descend s k [] t")
  case None
  then have e: "s' = s" using assms(1,4) by (simp add: tree_put_found)
  have "k \<in> key_of s ` set (inorder t)" using None by (rule descend_None)
  then have "tree_rep s' t \<and> search_inv s' t \<and>
      (alloc \<noteq> None \<longrightarrow> k \<in> key_of s' ` set (inorder t))"
    unfolding e using assms(1,2) by simp
  then show ?thesis by (rule exI)
next
  case (Some fs)
  show ?thesis
  proof (cases alloc)
    case None
    then have e: "s' = s" using assms(1,4) by (simp add: tree_put_no_alloc)
    have "tree_rep s' t \<and> search_inv s' t \<and>
        (alloc \<noteq> None \<longrightarrow> k \<in> key_of s' ` set (inorder t))"
      unfolding e using assms(1,2) None by simp
    then show ?thesis by (rule exI)
  next
    case (Some a)
    have fresh: "heap s a = None" using assms(3) Some by (simp add: alloc_fresh_def)
    from tree_put_new[OF assms(1) fresh \<open>descend s k [] t = Some fs\<close> assms(4)[unfolded Some]]
    obtain t' where t': "tree_rep s' t'" "inorder t' = before fs @ a # after fs"
      and keys: "\<forall>x. key_of s' x = (if x = a then k else key_of s x)" by blast
    have srt: "sorted_wrt (<) (map (key_of s) (inorder t))"
      using assms(2) by (simp add: search_inv_sorted)
    have io: "inorder t = before fs @ after fs"
      using descend_plug[OF \<open>descend s k [] t = Some fs\<close>] inorder_plug[of fs Empty] by simp
    have b: "(\<forall>x\<in>set (before fs). key_of s x < k) \<and> (\<forall>x\<in>set (after fs). k < key_of s x)"
      using descend_bounds[OF \<open>descend s k [] t = Some fs\<close> srt] by simp
    have "a \<notin> set (before fs @ after fs)"
      using t' by (auto simp: tree_rep_def)
    with srt io b keys have "sorted_wrt (<) (map (key_of s') (before fs @ a # after fs))"
      by (intro sorted_insert_mid[where f = "key_of s" and k = k]) auto
    then have "search_inv s' t'" by (simp add: search_inv_sorted t'(2))
    moreover have "k \<in> key_of s' ` set (inorder t')"
    proof -
      have "a \<in> set (inorder t')" using t'(2) by simp
      moreover have "key_of s' a = k" using keys by simp
      ultimately show ?thesis by (metis image_eqI)
    qed
    ultimately have "tree_rep s' t' \<and> search_inv s' t' \<and>
        (alloc \<noteq> None \<longrightarrow> k \<in> key_of s' ` set (inorder t'))"
      using t'(1) by simp
    then show ?thesis by (rule exI)
  qed
qed

lemma avl5_valid:
  "tree_rep avl5 shape5 \<and> balance_inv avl5 shape5 \<and> search_inv avl5 shape5 \<and>
   alloc_fresh avl5 (Some 6)"
  unfolding shape5_def by code_simp

lemma tree_put_avl5_returns:
  "case tree_put avl5 12 (Some 6) of
     None \<Rightarrow> False
   | Some r \<Rightarrow> (case r of Inl e \<Rightarrow> False | Inr s \<Rightarrow> key_of s 6 = 12 \<and> heap s 6 \<noteq> None)"
  by code_simp

lemma avl5_keys:
  "15 \<in> key_of avl5 ` set (inorder shape5) \<and> 12 \<notin> key_of avl5 ` set (inorder shape5)"
  by (simp add: shape5_def avl5_def key_of_def mk_node_def)

subsection \<open>Destruction\<close>

lemma released_Empty [simp]: "released s Empty = s"
  by (simp add: released_def)

lemma tree_delete_recursive_rep:
  assumes "rep (heap s) par t" and "distinct (inorder t)"
  shows "(case root_ptr t of None \<Rightarrow> Some (Inr s) | Some a \<Rightarrow> tree_delete_recursive s a)
           = Some (Inr (released s t))"
  using assms
proof (induction t arbitrary: s par)
  case Empty
  show ?case by simp
next
  case (Branch l a r)
  from Branch.prems(1) obtain n where n: "heap s a = Some n" "left n = root_ptr l"
    "right n = root_ptr r" and rl: "rep (heap s) (Some a) l" and rr: "rep (heap s) (Some a) r"
    by (auto simp: links_def)
  have dl: "distinct (inorder l)" and dr: "distinct (inorder r)"
    and al: "a \<notin> set (inorder l)" and ar: "a \<notin> set (inorder r)"
    and lr: "set (inorder l) \<inter> set (inorder r) = {}"
    using Branch.prems(2) by auto
  let ?s1 = "released s l"
  have step1: "(case root_ptr l of None \<Rightarrow> Some (Inr s) | Some b \<Rightarrow> tree_delete_recursive s b)
      = Some (Inr ?s1)"
    by (rule Branch.IH(1)[OF rl dl])
  have h1: "heap ?s1 a = Some n" using n al by (simp add: released_def)
  have "rep (heap ?s1) (Some a) r = rep (heap s) (Some a) r"
    by (rule rep_cong) (use lr in \<open>auto simp: released_def\<close>)
  then have rr1: "rep (heap ?s1) (Some a) r" using rr by simp
  let ?s2 = "released ?s1 r"
  have step2: "(case root_ptr r of None \<Rightarrow> Some (Inr ?s1) | Some b \<Rightarrow> tree_delete_recursive ?s1 b)
      = Some (Inr ?s2)"
    by (rule Branch.IH(2)[OF rr1 dr])
  have h2: "heap ?s2 a = Some n" using h1 ar by (simp add: released_def)
  have fin: "free ?s2 a = Inr (released s (Branch l a r))"
    using h2 by (auto simp: free_def released_def fun_eq_iff)
  have "tree_delete_recursive s a = Some (Inr (released s (Branch l a r)))"
    by (subst tree_delete_recursive.simps)
      (simp add: n step1 h1 step2 fin del: released_Empty)
  then show ?case by simp
qed

subsection \<open>Rebalancing does not read keys\<close>

lemma rekey_simps [simp]:
  "heap (rekey g s) x = map_option (\<lambda>n. n\<lparr>key := g x\<rparr>) (heap s x)"
  "root (rekey g s) = root s"
  "freed (rekey g s) = freed s"
  by (simp_all add: rekey_def)

lemma rekey_upd_node:
  assumes "\<And>n k. f (n\<lparr>key := k\<rparr>) = (f n)\<lparr>key := k\<rparr>"
  shows "upd_node (rekey g s) a f = rekey g (upd_node s a f)"
  by (cases "heap s a") (auto simp: upd_node_def rekey_def fun_eq_iff assms)

lemma rekey_imbalance_of [simp]: "imbalance_of (rekey g s) x = imbalance_of s x"
  by (cases "heap s x") (simp_all add: imbalance_of_def)

lemma rekey_read_slot [simp]: "read_slot (rekey g s) sl = read_slot s sl"
  by (cases sl) (auto simp: read_slot_def split: option.splits)

lemma rekey_write_slot:
  "write_slot (rekey g s) sl v = map_sum id (rekey g) (write_slot s sl v)"
proof (cases sl)
  case Root_slot
  then show ?thesis by (simp add: write_slot_def rekey_def)
next
  case (Left_slot p)
  then show ?thesis
    by (cases "heap s p") (simp_all add: write_slot_def rekey_upd_node)
next
  case (Right_slot p)
  then show ?thesis
    by (cases "heap s p") (simp_all add: write_slot_def rekey_upd_node)
qed

lemma bind_r_map_sum:
  "bind_r (map_sum id f m) k = bind_r m (\<lambda>x. k (f x))"
  by (cases m) simp_all

lemma map_sum_bind_r:
  "map_sum id f (bind_r m k) = bind_r m (\<lambda>x. map_sum id f (k x))"
  by (cases m) simp_all

lemma rekey_left_rotate_links:
  "left_rotate_links (rekey g s) sl a b c p = map_sum id (rekey g) (left_rotate_links s sl a b c p)"
proof (cases "write_slot s sl (Some b)")
  case (Inl e)
  then show ?thesis by (simp add: left_rotate_links_def rekey_write_slot)
next
  case (Inr s1)
  show ?thesis
  proof (cases c)
    case None
    then show ?thesis
      by (simp add: left_rotate_links_def rekey_write_slot Inr Let_def rekey_upd_node)
  next
    case (Some c')
    let ?s4 = "upd_node (upd_node (upd_node s1 b (\<lambda>n. n\<lparr>parent := p\<rparr>)) a
                 (\<lambda>n. n\<lparr>parent := Some b\<rparr>)) b (\<lambda>n. n\<lparr>left := Some a\<rparr>)"
    show ?thesis
      by (cases "heap ?s4 c'")
        (simp_all add: left_rotate_links_def rekey_write_slot Inr Let_def rekey_upd_node Some
          del: upd_node_simps)
  qed
qed

lemma rekey_right_rotate_links:
  "right_rotate_links (rekey g s) sl a b c p = map_sum id (rekey g) (right_rotate_links s sl a b c p)"
proof (cases "write_slot s sl (Some b)")
  case (Inl e)
  then show ?thesis by (simp add: right_rotate_links_def rekey_write_slot)
next
  case (Inr s1)
  show ?thesis
  proof (cases c)
    case None
    then show ?thesis
      by (simp add: right_rotate_links_def rekey_write_slot Inr Let_def rekey_upd_node)
  next
    case (Some c')
    let ?s4 = "upd_node (upd_node (upd_node s1 b (\<lambda>n. n\<lparr>parent := p\<rparr>)) a
                 (\<lambda>n. n\<lparr>parent := Some b\<rparr>)) b (\<lambda>n. n\<lparr>right := Some a\<rparr>)"
    show ?thesis
      by (cases "heap ?s4 c'")
        (simp_all add: right_rotate_links_def rekey_write_slot Inr Let_def rekey_upd_node Some
          del: upd_node_simps)
  qed
qed

lemma rekey_left_rotate_imbalance:
  "left_rotate_imbalance (rekey g s) a b = map_sum id (rekey g) (left_rotate_imbalance s a b)"
  by (simp add: left_rotate_imbalance_def Let_def rekey_upd_node)

lemma rekey_right_rotate_imbalance:
  "right_rotate_imbalance (rekey g s) a b = map_sum id (rekey g) (right_rotate_imbalance s a b)"
  by (simp add: right_rotate_imbalance_def Let_def rekey_upd_node)

lemma rekey_tree_left_rotate:
  "tree_left_rotate (rekey g s) sl = map_sum id (rekey g) (tree_left_rotate s sl)"
  apply (cases "read_slot s sl"; simp add: tree_left_rotate_def)
  subgoal for a'
    apply (cases a'; simp)
    subgoal for a
      apply (cases "heap s a"; simp)
      subgoal for na
        apply (cases "right na"; simp)
        subgoal for b
          by (cases "heap s b")
            (simp_all add: rekey_left_rotate_links bind_r_map_sum map_sum_bind_r
              rekey_left_rotate_imbalance)
        done
      done
    done
  done

lemma rekey_tree_right_rotate:
  "tree_right_rotate (rekey g s) sl = map_sum id (rekey g) (tree_right_rotate s sl)"
  apply (cases "read_slot s sl"; simp add: tree_right_rotate_def)
  subgoal for a'
    apply (cases a'; simp)
    subgoal for a
      apply (cases "heap s a"; simp)
      subgoal for na
        apply (cases "left na"; simp)
        subgoal for b
          by (cases "heap s b")
            (simp_all add: rekey_right_rotate_links bind_r_map_sum map_sum_bind_r
              rekey_right_rotate_imbalance)
        done
      done
    done
  done

lemma rekey_bind_deref:
  assumes "\<And>n k. K' (n\<lparr>key := k\<rparr>) = map_sum id F (K n)"
  shows "bind_r (deref (rekey g s) p) K' = map_sum id F (bind_r (deref s p) K)"
proof (cases p)
  case None
  then show ?thesis by simp
next
  case (Some a)
  then show ?thesis by (cases "heap s a") (simp_all add: assms)
qed

lemma rekey_tree_rotate:
  "tree_rotate (rekey g s) sl = map_sum id (rekey g) (tree_rotate s sl)"
  apply (cases "read_slot s sl"; simp add: tree_rotate_def)
  subgoal for a'
    apply (cases a'; simp)
    subgoal for a
      apply (cases "heap s a"; simp)
      subgoal for na
        by (intro conjI impI rekey_bind_deref)
          (simp_all add: rekey_tree_left_rotate rekey_tree_right_rotate bind_r_map_sum
            map_sum_bind_r)
      done
    done
  done

lemma rekey_TREE_SIDEOF: "TREE_SIDEOF (rekey g s) a = TREE_SIDEOF s a"
  apply (cases "heap s a"; simp add: TREE_SIDEOF_def)
  subgoal for n
    apply (cases "parent n"; simp)
    subgoal for p
      by (cases "heap s p") simp_all
    done
  done

lemma rekey_TREE_PARENTPTR: "TREE_PARENTPTR (rekey g s) a = TREE_PARENTPTR s a"
  apply (cases "heap s a"; simp add: TREE_PARENTPTR_def)
  subgoal for n
    apply (cases "parent n"; simp)
    subgoal for p
      by (cases "heap s p") simp_all
    done
  done

lemma rekey_rebalance_exit:
  "rebalance_exit a (rekey g s) = map_sum id (rekey g) (rebalance_exit a s)"
  by (cases "heap s a") (simp_all add: rebalance_exit_def)

text \<open>
  If \<open>tree_rebalance\<close> returns a result on a state, it returns the same result, up to
  the keys, on every state that differs from it in the keys only.
\<close>

lemma rekey_tree_rotate_ext:
  "tree_rotate (rekey g s) = (\<lambda>sl. map_sum id (rekey g) (tree_rotate s sl))"
  by (rule ext) (rule rekey_tree_rotate)

lemma rekey_tree_rebalance:
  assumes "tree_rebalance s a bf = Some r"
  shows "tree_rebalance (rekey g s) a bf = Some (map_sum id (rekey g) r)"
proof (rule tree_rebalance.raw_induct[where
      P = "\<lambda>s a bf r. tree_rebalance (rekey g s) a bf = Some (map_sum id (rekey g) r)",
      OF _ assms])
  fix f s a bf r
  assume IH: "\<And>s a bf r. f s a bf = Some r \<Longrightarrow>
      tree_rebalance (rekey g s) a bf = Some (map_sum id (rekey g) r)"
  assume body: "(case heap s a of
        None \<Rightarrow> Some (Inl Bad_pointer)
      | Some n \<Rightarrow>
          if \<not> (imbalance n = 1 \<or> imbalance n = 0 \<or> imbalance n = - 1)
          then Some (Inl Assertion_failed)
          else if \<not> (bf = 1 \<or> bf = - 1) then Some (Inl Assertion_failed)
          else
            let i = imbalance n + bf;
                s1 = upd_node s a (\<lambda>n. n\<lparr>imbalance := i\<rparr>)
            in
            if \<not> (i = 0 \<or> i = bf \<or> i = 2 * bf) then Some (Inl Assertion_failed)
            else
              Option.bind
                (if i * bf = 0 then Some (Inr s1)
                 else if i * bf = 1 then
                   (case parent n of
                      None \<Rightarrow> Some (Inr s1)
                    | Some p \<Rightarrow>
                        (case TREE_SIDEOF s1 a of
                           Inl e \<Rightarrow> Some (Inl e)
                         | Inr side \<Rightarrow> f s1 p side))
                 else if i * bf = 2 then
                   Some (bind_r (TREE_PARENTPTR s1 a) (tree_rotate s1))
                 else Some (Inr s1))
                (\<lambda>r. Some (bind_r r (rebalance_exit a)))) = Some r"
  show "tree_rebalance (rekey g s) a bf = Some (map_sum id (rekey g) r)"
  proof (cases "heap s a")
    case None
    with body have "r = Inl Bad_pointer" by simp
    then show ?thesis using None by (subst tree_rebalance.simps) simp
  next
    case (Some n)
    define i where "i = imbalance n + bf"
    define s1 where "s1 = upd_node s a (\<lambda>n. n\<lparr>imbalance := i\<rparr>)"
    have s1': "upd_node (rekey g s) a (\<lambda>n. n\<lparr>imbalance := i\<rparr>) = rekey g s1"
      by (simp add: s1_def rekey_upd_node)
    show ?thesis
    proof (cases "(imbalance n = 1 \<or> imbalance n = 0 \<or> imbalance n = - 1) \<and>
        (bf = 1 \<or> bf = - 1) \<and> (i = 0 \<or> i = bf \<or> i = 2 * bf)")
      case False
      then have "r = Inl Assertion_failed"
        using body Some by (auto simp: Let_def i_def split: if_splits)
      then show ?thesis
        using False Some by (subst tree_rebalance.simps) (auto simp: Let_def i_def)
    next
      case True
      let ?X = "\<lambda>t S. (if i * bf = 0 then Some (Inr S)
          else if i * bf = 1 then
            (case parent n of
               None \<Rightarrow> Some (Inr S)
             | Some p \<Rightarrow>
                 (case TREE_SIDEOF S a of
                    Inl e \<Rightarrow> Some (Inl e)
                  | Inr side \<Rightarrow> t S p side))
          else if i * bf = 2 then Some (bind_r (TREE_PARENTPTR S a) (tree_rotate S))
          else Some (Inr S))"
      have nA: "(\<not> (imbalance n = 1 \<or> imbalance n = 0 \<or> imbalance n = - 1)) = False"
        and nB: "(\<not> (bf = 1 \<or> bf = - 1)) = False"
        and nC: "(\<not> (i = 0 \<or> i = bf \<or> i = 2 * bf)) = False"
        using True by simp_all
      have b: "Option.bind (?X f s1) (\<lambda>r. Some (bind_r r (rebalance_exit a))) = Some r"
        using body[unfolded Some option.case Let_def, folded i_def, folded s1_def,
            unfolded nA nB nC if_False] .
      then obtain r1 where r1: "?X f s1 = Some r1" and r: "r = bind_r r1 (rebalance_exit a)"
        by (auto simp: Option.bind_eq_Some_conv)
      have X': "?X tree_rebalance (rekey g s1) = Some (map_sum id (rekey g) r1)"
        using r1 IH
        by (auto simp: rekey_TREE_SIDEOF rekey_TREE_PARENTPTR rekey_tree_rotate_ext
            map_sum_bind_r split: if_splits option.splits sum.splits)
      have hr: "heap (rekey g s) a = Some (n\<lparr>key := g a\<rparr>)" using Some by simp
      have sel: "imbalance (n\<lparr>key := g a\<rparr>) = imbalance n" "parent (n\<lparr>key := g a\<rparr>) = parent n"
        by simp_all
      have "tree_rebalance (rekey g s) a bf =
          Option.bind (?X tree_rebalance (rekey g s1)) (\<lambda>r. Some (bind_r r (rebalance_exit a)))"
        unfolding tree_rebalance.simps[of "rekey g s" a bf] hr option.case Let_def sel
          i_def[symmetric] s1' nA nB nC if_False ..
      then show ?thesis
        unfolding X' r by (simp add: bind_r_map_sum map_sum_bind_r rekey_rebalance_exit)
    qed
  qed
qed

section \<open>The claims\<close>

subsection \<open>Rotation\<close>

text \<open>
  C7 (rotation-case selection). For a slot holding a node \<open>a\<close> with imbalance +2 whose
  right child is allocated: if the right child's imbalance is negative, \<open>tree_rotate\<close>
  first right-rotates the right child's slot and then left-rotates the node's slot,
  otherwise it left-rotates the node's slot only. For imbalance -2 the mirror image holds:
  the left child's slot is left-rotated first exactly when the left child's imbalance is
  positive, then the node's slot is right-rotated.
\<close>

theorem tree_rotate_case_selection:
  assumes "read_slot s node = Inr (Some a)" and "heap s a = Some na"
  shows "(imbalance na = 2 \<and> deref s (right na) = Inr nr \<longrightarrow>
            tree_rotate s node =
              (if imbalance nr < 0
               then bind_r (tree_right_rotate s (Right_slot a)) (\<lambda>s1. tree_left_rotate s1 node)
               else tree_left_rotate s node)) \<and>
         (imbalance na = - 2 \<and> deref s (left na) = Inr nl \<longrightarrow>
            tree_rotate s node =
              (if imbalance nl > 0
               then bind_r (tree_left_rotate s (Left_slot a)) (\<lambda>s1. tree_right_rotate s1 node)
               else tree_right_rotate s node))"
  using assms by (simp add: tree_rotate_def)

theorem tree_rotate_case_selection_witness:
  "tree_rotate rl_state Root_slot =
     bind_r (tree_right_rotate rl_state (Right_slot 1)) (\<lambda>s1. tree_left_rotate s1 Root_slot) \<and>
   tree_rotate lr_state Root_slot =
     bind_r (tree_left_rotate lr_state (Left_slot 1)) (\<lambda>s1. tree_right_rotate s1 Root_slot)"
  using tree_rotate_case_selection [of rl_state Root_slot 1 "mk_node (Some 2) (Some 3) None 2 10"
      "mk_node (Some 4) (Some 5) (Some 1) (- 1) 20"]
    tree_rotate_case_selection [of lr_state Root_slot 1 "mk_node (Some 2) None None (- 2) 12" _
      "mk_node None (Some 3) (Some 1) 1 4"]
  by (simp add: rl_state_def lr_state_def read_slot_def mk_node_def)

text \<open>
  C2, as the spec states it, fails: on a node whose imbalance is neither +2 nor -2
  \<open>tree_rotate\<close> does not abort. On the one-node tree it returns normally and leaves the
  state as it was.
\<close>

theorem tree_rotate_no_abort_counterexample:
  "read_slot one_node Root_slot = Inr (Some 1) \<and> imbalance_of one_node 1 = 0 \<and>
   tree_rotate one_node Root_slot = Inr one_node"
  by (simp add: tree_rotate_def one_node_def read_slot_def imbalance_of_def mk_node_def)

text \<open>
  C2, amended: for every slot holding an allocated node whose imbalance is neither +2 nor
  -2, \<open>tree_rotate\<close> returns normally and changes nothing ("rotates if necessary").
\<close>

theorem tree_rotate_other_imbalance:
  assumes "read_slot s node = Inr (Some a)" and "heap s a = Some na"
    and "imbalance na \<noteq> 2" and "imbalance na \<noteq> - 2"
  shows "tree_rotate s node = Inr s"
  using assms by (simp add: tree_rotate_def)

theorem tree_rotate_other_imbalance_witness:
  "tree_rotate avl5 (Right_slot 1) = Inr avl5"
  using tree_rotate_other_imbalance [of avl5 "Right_slot 1" 3 "mk_node (Some 4) (Some 5) (Some 1) 0 20"]
  by (simp add: avl5_def read_slot_def mk_node_def)

subsection \<open>The imbalance arithmetic of the rotations\<close>

text \<open>
  C3 fails on the code. \<open>avl5\<close> is a search tree that satisfies the balance invariant.
  Inserting key 12 (allocated at address 6) returns normally; the result is the tree
  \<open>shape6\<close>, in which node 1 (key 10) has the two leaves 2 and 6 as children, so its
  subtrees have equal height, but its stored imbalance is 1. The balance invariant is
  broken although no assertion failed.
\<close>

theorem tree_put_breaks_balance_inv:
  "tree_rep avl5 shape5 \<and> balance_inv avl5 shape5 \<and> search_inv avl5 shape5 \<and>
   alloc_fresh avl5 (Some 6) \<and>
   (case tree_put avl5 12 (Some 6) of
      None \<Rightarrow> False
    | Some r \<Rightarrow>
        (case r of
           Inl e \<Rightarrow> False
         | Inr s \<Rightarrow> tree_rep s shape6 \<and> imbalance_of s 1 = 1 \<and> \<not> balance_inv s shape6))"
  unfolding shape5_def shape6_def by code_simp

text \<open>
  C9 fails on the code in its second half: allocation failure is not the only way an
  insertion fails. Inserting key 17 into the valid tree \<open>avl5\<close>, with the allocation
  succeeding, ends in a failed assertion.
\<close>

lemma tree_put_aborts_eval:
  "case tree_put avl5 17 (Some 6) of
     None \<Rightarrow> False
   | Some r \<Rightarrow> (case r of Inl e \<Rightarrow> e = Assertion_failed | Inr s \<Rightarrow> False)"
  by code_simp

theorem tree_put_aborts:
  "tree_rep avl5 shape5 \<and> balance_inv avl5 shape5 \<and> search_inv avl5 shape5 \<and>
   alloc_fresh avl5 (Some 6) \<and> tree_put avl5 17 (Some 6) = Some (Inl Assertion_failed)"
proof -
  have "tree_rep avl5 shape5 \<and> balance_inv avl5 shape5 \<and> search_inv avl5 shape5 \<and>
    alloc_fresh avl5 (Some 6)"
    unfolding shape5_def by code_simp
  moreover have "tree_put avl5 17 (Some 6) = Some (Inl Assertion_failed)"
    using tree_put_aborts_eval by (auto split: option.splits sum.splits)
  ultimately show ?thesis by simp
qed

text \<open>
  C6 fails on the code in its last part. In \<open>rl_state\<close> node 1 has imbalance 2 and its
  right child 3 has imbalance -1, so \<open>tree_rotate\<close> selects the right rotation of the
  right child's slot first, as documented. The left child 4 of node 3 has imbalance 1:
  the documented formulas give the new values 0 for node 3 and 2 for node 4, and the
  closing assertion of \<open>tree_right_rotate\<close> fails.
\<close>

lemma tree_rotate_aborts_eval:
  "(case tree_right_rotate rl_state (Right_slot 1) of
      Inl e \<Rightarrow> e = Assertion_failed | Inr s \<Rightarrow> False) \<and>
   (case tree_rotate rl_state Root_slot of
      Inl e \<Rightarrow> e = Assertion_failed | Inr s \<Rightarrow> False)"
  by code_simp

theorem tree_rotate_assertion_fails:
  "imbalance_of rl_state 1 = 2 \<and> imbalance_of rl_state 3 = - 1 \<and> imbalance_of rl_state 4 = 1 \<and>
   right_new_a (- 1) 1 = 0 \<and> right_new_b (- 1) 1 = 2 \<and>
   tree_right_rotate rl_state (Right_slot 1) = Inl Assertion_failed \<and>
   tree_rotate rl_state Root_slot = Inl Assertion_failed"
proof -
  have "imbalance_of rl_state 1 = 2 \<and> imbalance_of rl_state 3 = - 1 \<and> imbalance_of rl_state 4 = 1"
    by (simp add: rl_state_def imbalance_of_def mk_node_def)
  moreover have "right_new_a (- 1) 1 = 0 \<and> right_new_b (- 1) 1 = 2"
    by (simp add: right_new_a_def right_new_b_def)
  moreover have "tree_right_rotate rl_state (Right_slot 1) = Inl Assertion_failed"
    "tree_rotate rl_state Root_slot = Inl Assertion_failed"
    using tree_rotate_aborts_eval by (auto split: sum.splits)
  ultimately show ?thesis by simp
qed

subsection \<open>Insertion\<close>

text \<open>
  C4 (search-tree invariant). If the heap holds a tree \<open>t\<close> that satisfies the search-tree
  ordering, \<^verbatim>\<open>malloc\<close> fails or returns a fresh address, and \<open>tree_put\<close> returns (with
  or without rotations), then the heap holds a tree again and in it every node's left
  subtree has only smaller keys and its right subtree only greater keys.
\<close>

theorem tree_put_search_inv:
  assumes "tree_rep s t" and "search_inv s t" and "alloc_fresh s alloc"
    and "tree_put s k alloc = Some (Inr s')"
  shows "\<exists>t'. tree_rep s' t' \<and> search_inv s' t'"
  using tree_put_inv[OF assms] by blast

theorem tree_put_search_inv_witness:
  "\<exists>s' t'. tree_put avl5 12 (Some 6) = Some (Inr s') \<and> tree_rep s' t' \<and> search_inv s' t'"
proof -
  from tree_put_avl5_returns obtain s' where "tree_put avl5 12 (Some 6) = Some (Inr s')"
    by (auto split: option.splits sum.splits)
  with tree_put_search_inv[of avl5 shape5 "Some 6" 12 s'] avl5_valid show ?thesis by blast
qed

text \<open>
  Insertions that return. For a search tree in the heap and a failed or fresh allocation:
  inserting a key that is in the tree returns the state unchanged; when the insertion of a
  key that is not in the tree, with the allocation succeeding, returns, the new node was
  attached as a leaf at the place where the search ended (imbalance 0, no children, the
  parent pointer at the attachment point: the state \<open>tree_insert_under\<close> hands to
  \<open>tree_rebalance\<close>, or \<open>tree_create_root\<close> returns) and the tree has exactly one node
  more; and inserting the same key again after such an insertion changes nothing.
\<close>

lemma tree_put_returning:
  assumes "tree_rep s t" and "search_inv s t" and "alloc_fresh s alloc"
  shows "(k \<in> key_of s ` set (inorder t) \<longrightarrow> tree_put s k alloc = Some (Inr s)) \<and>
         (\<forall>a s'. k \<notin> key_of s ` set (inorder t) \<longrightarrow> alloc = Some a \<longrightarrow>
                 tree_put s k alloc = Some (Inr s') \<longrightarrow>
            (\<exists>fs s1 t'. descend s k [] t = Some fs \<and> plug fs Empty = t \<and>
               (case hole_par fs of
                  None \<Rightarrow> tree_create_root s (Some a) = (s1, Some a)
                | Some p \<Rightarrow> attach_node s p (hole_slot fs = Right_slot p) a = Inr s1) \<and>
               tree_rep s1 (plug fs (Branch Empty a Empty)) \<and>
               heap s1 a = Some \<lparr>left = None, right = None, parent = hole_par fs,
                                   imbalance = 0, key = 0\<rparr> \<and>
               tree_rep s' t' \<and> node_count t' = node_count t + 1)) \<and>
         (\<forall>a s' alloc'. alloc = Some a \<longrightarrow> tree_put s k alloc = Some (Inr s') \<longrightarrow>
            tree_put s' k alloc' = Some (Inr s'))"
proof (intro conjI allI impI)
  assume "k \<in> key_of s ` set (inorder t)"
  then have "descend s k [] t = None"
    using assms(2) by (intro descend_present) (simp add: search_inv_sorted)
  then show "tree_put s k alloc = Some (Inr s)" using assms(1) by (rule tree_put_found[rotated])
next
  fix a s'
  assume nk: "k \<notin> key_of s ` set (inorder t)" and al: "alloc = Some a"
    and put: "tree_put s k alloc = Some (Inr s')"
  from nk obtain fs where d: "descend s k [] t = Some fs"
    using descend_None[of s k "[]" t] by (cases "descend s k [] t") auto
  have fresh: "heap s a = None" using assms(3) al by (simp add: alloc_fresh_def)
  have res: "tree_put s k (Some a) = Some (Inr s')" using put unfolding al .
  from tree_put_new[OF assms(1) fresh d res] obtain s1 t' where
    z1: "zip_rep s1 fs (Branch Empty a Empty)"
    and att: "case hole_par fs of
                None \<Rightarrow> tree_create_root s (Some a) = (s1, Some a)
              | Some p \<Rightarrow> attach_node s p (hole_slot fs = Right_slot p) a = Inr s1"
    and a1: "heap s1 a = Some \<lparr>left = None, right = None, parent = hole_par fs,
                                   imbalance = 0, key = 0\<rparr>"
    and t': "tree_rep s' t'" "inorder t' = before fs @ a # after fs"
    by blast
  have pl: "plug fs Empty = t" using descend_plug[OF d] by simp
  have len: "length (inorder u) = node_count u" for u by (induction u) auto
  have "node_count t' = length (before fs) + 1 + length (after fs)"
    using t'(2) len[of t'] by simp
  moreover have "node_count t = length (before fs) + length (after fs)"
    using node_count_plug[of fs Empty] pl by simp
  ultimately have "node_count t' = node_count t + 1" by simp
  then have "descend s k [] t = Some fs \<and> plug fs Empty = t \<and>
               (case hole_par fs of
                  None \<Rightarrow> tree_create_root s (Some a) = (s1, Some a)
                | Some p \<Rightarrow> attach_node s p (hole_slot fs = Right_slot p) a = Inr s1) \<and>
               tree_rep s1 (plug fs (Branch Empty a Empty)) \<and>
               heap s1 a = Some \<lparr>left = None, right = None, parent = hole_par fs,
                                   imbalance = 0, key = 0\<rparr> \<and>
               tree_rep s' t' \<and> node_count t' = node_count t + 1"
    using d pl att z1 a1 t'(1) unfolding zip_rep_plug by (intro conjI)
  then show "\<exists>fs s1 t'. descend s k [] t = Some fs \<and> plug fs Empty = t \<and>
               (case hole_par fs of
                  None \<Rightarrow> tree_create_root s (Some a) = (s1, Some a)
                | Some p \<Rightarrow> attach_node s p (hole_slot fs = Right_slot p) a = Inr s1) \<and>
               tree_rep s1 (plug fs (Branch Empty a Empty)) \<and>
               heap s1 a = Some \<lparr>left = None, right = None, parent = hole_par fs,
                                   imbalance = 0, key = 0\<rparr> \<and>
               tree_rep s' t' \<and> node_count t' = node_count t + 1"
    by (intro exI)
next
  fix a s' alloc'
  assume al: "alloc = Some a" and put: "tree_put s k alloc = Some (Inr s')"
  from al have "alloc \<noteq> None" by simp
  with tree_put_inv[OF assms put] obtain t' where
    t': "tree_rep s' t'" "search_inv s' t'" "k \<in> key_of s' ` set (inorder t')" by blast
  have "descend s' k [] t' = None"
    using t'(2,3) by (intro descend_present) (simp_all add: search_inv_sorted)
  then show "tree_put s' k alloc' = Some (Inr s')" using t'(1) by (rule tree_put_found[rotated])
qed

text \<open>An insertion into the empty tree with the allocation succeeding always returns.\<close>

lemma tree_put_empty:
  assumes "tree_rep s Empty" and "heap s a = None"
  shows "\<exists>s'. tree_put s k (Some a) = Some (Inr s') \<and> tree_rep s' (Branch Empty a Empty) \<and>
           heap s' a = Some \<lparr>left = None, right = None, parent = None, imbalance = 0, key = k\<rparr>"
proof -
  let ?init = "\<lparr>left = None, right = None, parent = None, imbalance = 0, key = 0\<rparr>"
  define s1 where "s1 = s\<lparr>root := Some a, heap := (heap s)(a \<mapsto> ?init)\<rparr>"
  have cr: "tree_create_root s (Some a) = (s1, Some a)"
    by (simp add: tree_create_root_def s1_def)
  have put: "tree_put s k (Some a) = Some (Inr (upd_node s1 a (\<lambda>n. n\<lparr>key := k\<rparr>)))"
    unfolding tree_put_descend[OF assms(1)] by (simp add: cr) (simp add: s1_def)
  moreover have "tree_rep (upd_node s1 a (\<lambda>n. n\<lparr>key := k\<rparr>)) (Branch Empty a Empty)"
    by (simp add: tree_rep_def s1_def)
  moreover have "heap (upd_node s1 a (\<lambda>n. n\<lparr>key := k\<rparr>)) a
      = Some \<lparr>left = None, right = None, parent = None, imbalance = 0, key = k\<rparr>"
    by (simp add: s1_def)
  ultimately show ?thesis by (intro exI conjI)
qed

text \<open>
  C8 fails on the code in its second half: inserting a key that is not in the tree, with
  the allocation succeeding, does not always add a node. \<open>avl5_mirror\<close> is a search tree
  that satisfies the balance invariant, with the keys 3, 5, 7, 10, 20. Inserting key 6
  (allocated at address 6) attaches the new node to the left of 7 and updates the
  imbalances of 7, 5 and 10 to -1, 1 and -2; the double rotation at the root starts with
  \<open>tree_left_rotate\<close> on the left slot of the root, which computes 0 for node 5 and -2 for
  node 7, and its closing assertion fails. The insertion ends there: no state is returned,
  so there is no tree with one node more.
\<close>

theorem tree_put_new_key_aborts:
  "tree_rep avl5_mirror shape5_mirror \<and> balance_inv avl5_mirror shape5_mirror \<and>
   search_inv avl5_mirror shape5_mirror \<and> alloc_fresh avl5_mirror (Some 6) \<and>
   map (key_of avl5_mirror) (inorder shape5_mirror) = [3, 5, 7, 10, 20] \<and>
   tree_put avl5_mirror 6 (Some 6) = Some (Inl Assertion_failed)"
proof -
  have "tree_rep avl5_mirror shape5_mirror \<and> balance_inv avl5_mirror shape5_mirror \<and>
    search_inv avl5_mirror shape5_mirror \<and> alloc_fresh avl5_mirror (Some 6) \<and>
    map (key_of avl5_mirror) (inorder shape5_mirror) = [3, 5, 7, 10, 20]"
    unfolding shape5_mirror_def by code_simp
  moreover have "case tree_put avl5_mirror 6 (Some 6) of
     None \<Rightarrow> False
   | Some r \<Rightarrow> (case r of Inl e \<Rightarrow> e = Assertion_failed | Inr s \<Rightarrow> False)"
    by code_simp
  then have "tree_put avl5_mirror 6 (Some 6) = Some (Inl Assertion_failed)"
    by (auto split: option.splits sum.splits)
  ultimately show ?thesis by simp
qed

subsection \<open>Destruction\<close>

text \<open>
  C1, as the spec states it, fails in one point: \<open>tree_delete\<close> never assigns to
  \<^verbatim>\<open>t->root\<close>. After destroying the one-node tree the node is released, but the root
  field still holds its address: the tree is not in the empty state.
\<close>

theorem tree_delete_root_counterexample:
  "tree_rep one_node (Branch Empty 1 Empty) \<and>
   (case tree_delete one_node of
      None \<Rightarrow> False
    | Some r \<Rightarrow>
        (case r of
           Inl e \<Rightarrow> False
         | Inr s' \<Rightarrow> root s' = Some 1 \<and> root s' \<noteq> None \<and> heap s' 1 = None \<and> freed s' = [1]))"
  by code_simp

text \<open>
  C1, amended: for every tree in the heap, \<open>tree_delete\<close> returns; it passes the nodes to
  \<^verbatim>\<open>free\<close> in post-order (the left subtree entirely, then the right subtree entirely,
  then the node), after which none of the tree's nodes is allocated and the rest of the
  heap is as before; the root field keeps the value it had. On an empty tree it changes
  nothing.
\<close>

theorem tree_delete_postorder:
  assumes "tree_rep s t"
  shows "(\<exists>s'. tree_delete s = Some (Inr s') \<and> freed s' = freed s @ postorder t \<and>
            (\<forall>x. heap s' x = (if x \<in> set (inorder t) then None else heap s x)) \<and>
            root s' = root s) \<and>
         (t = Empty \<longrightarrow> tree_delete s = Some (Inr s))"
proof -
  from assms have rt: "root s = root_ptr t" and rp: "rep (heap s) None t"
    and d: "distinct (inorder t)" by (simp_all add: tree_rep_def)
  have run: "tree_delete s = Some (Inr (released s t))"
    unfolding tree_delete_def rt by (rule tree_delete_recursive_rep[OF rp d])
  have "freed (released s t) = freed s @ postorder t"
    "\<forall>x. heap (released s t) x = (if x \<in> set (inorder t) then None else heap s x)"
    "root (released s t) = root s"
    by (simp_all add: released_def)
  with run show ?thesis by auto
qed

theorem tree_delete_postorder_witness:
  "(\<exists>s'. tree_delete avl5 = Some (Inr s') \<and> freed s' = [2, 4, 5, 3, 1] \<and>
     heap s' 1 = None \<and> heap s' 4 = None \<and> root s' = Some 1) \<and>
   tree_delete tree_init = Some (Inr tree_init)"
proof -
  have "tree_rep tree_init Empty" by (simp add: tree_rep_def tree_init_def)
  from tree_delete_postorder[OF this] have e: "tree_delete tree_init = Some (Inr tree_init)"
    by simp
  from tree_delete_postorder[OF avl5_valid[THEN conjunct1]] obtain s' where
    "tree_delete avl5 = Some (Inr s')" "freed s' = freed avl5 @ postorder shape5"
    "\<forall>x. heap s' x = (if x \<in> set (inorder shape5) then None else heap avl5 x)"
    "root s' = root avl5" by blast
  then have "tree_delete avl5 = Some (Inr s') \<and> freed s' = [2, 4, 5, 3, 1] \<and>
     heap s' 1 = None \<and> heap s' 4 = None \<and> root s' = Some 1"
    by (simp add: shape5_def avl5_def)
  then have "\<exists>s'. tree_delete avl5 = Some (Inr s') \<and> freed s' = [2, 4, 5, 3, 1] \<and>
     heap s' 1 = None \<and> heap s' 4 = None \<and> root s' = Some 1" by (rule exI)
  with e show ?thesis by simp
qed

subsection \<open>One level of rebalancing\<close>

text \<open>
  C5. Let \<open>node\<close> be a node of a tree in the heap (the root of the subtree at position
  \<open>fs\<close>) with imbalance in {-1, 0, 1}, and \<open>delta\<close> be -1 or 1. \<open>tree_rebalance\<close>
  adds \<open>delta\<close> to the node's imbalance; the new value \<open>i\<close> is 0, \<open>delta\<close> or
  \<open>2 * delta\<close>. On 0 it returns at once, having changed this one field only. On
  \<open>delta\<close> it returns at once when the node has no parent, and otherwise calls itself on
  the parent, with -1 when the node is the parent's left child and +1 when it is the right
  child. On \<open>2 * delta\<close> it calls \<open>tree_rotate\<close> once, on the slot that holds the node,
  and does not recurse; when it returns, the imbalance of every node outside the node's
  subtree (so of every ancestor) is what it was. Whenever the call returns, the node's
  imbalance is in {-1, 0, 1}.
\<close>

theorem tree_rebalance_level:
  assumes z: "zip_rep s fs (Branch l node r)"
    and imb: "imbalance_of s node \<in> {- 1, 0, 1}" and dl: "delta \<in> {- 1, 1}"
  shows "let i = imbalance_of s node + delta;
             s1 = upd_node s node (\<lambda>n. n\<lparr>imbalance := i\<rparr>)
         in i \<in> {0, delta, 2 * delta} \<and>
            (i = 0 \<longrightarrow> tree_rebalance s node delta = Some (Inr s1)) \<and>
            (i = delta \<longrightarrow>
               tree_rebalance s node delta =
                 (case fs of
                    [] \<Rightarrow> Some (Inr s1)
                  | Left_of p sib # fs' \<Rightarrow>
                      Option.bind (tree_rebalance s1 p (- 1))
                        (\<lambda>r. Some (bind_r r (rebalance_exit node)))
                  | Right_of sib p # fs' \<Rightarrow>
                      Option.bind (tree_rebalance s1 p 1)
                        (\<lambda>r. Some (bind_r r (rebalance_exit node))))) \<and>
            (i = 2 * delta \<longrightarrow>
               tree_rebalance s node delta =
                 Some (bind_r (tree_rotate s1 (hole_slot fs)) (rebalance_exit node)) \<and>
               (\<forall>s'. tree_rebalance s node delta = Some (Inr s') \<longrightarrow>
                  (\<forall>x\<in>set (before fs @ after fs). imbalance_of s' x = imbalance_of s x))) \<and>
            (\<forall>s'. tree_rebalance s node delta = Some (Inr s') \<longrightarrow>
               imbalance_of s' node \<in> {- 1, 0, 1})"
proof -
  from z obtain na where na: "heap s node = Some na" "parent na = hole_par fs"
    by (auto simp: zip_rep_def links_def)
  have io: "imbalance_of s node = imbalance na" using na by (simp add: imbalance_of_def)
  define i where "i = imbalance na + delta"
  define s1 where "s1 = upd_node s node (\<lambda>n. n\<lparr>imbalance := i\<rparr>)"
  have z1: "zip_rep s1 fs (Branch l node r)" using z by (simp add: s1_def set_imbalance_zip)
  have i_range: "i \<in> {0, delta, 2 * delta}" using imb dl io by (auto simp: i_def)
  have a_ok: "imbalance na = 1 \<or> imbalance na = 0 \<or> imbalance na = - 1"
    and d_ok: "delta = 1 \<or> delta = - 1"
    and i_ok: "i = 0 \<or> i = delta \<or> i = 2 * delta"
    using imb dl io i_range by auto
  let ?body = "if i * delta = 0 then Some (Inr s1)
          else if i * delta = 1 then
            (case hole_par fs of
               None \<Rightarrow> Some (Inr s1)
             | Some p \<Rightarrow>
                 (case TREE_SIDEOF s1 node of
                    Inl e \<Rightarrow> Some (Inl e)
                  | Inr side \<Rightarrow> tree_rebalance s1 p side))
          else if i * delta = 2 then Some (bind_r (TREE_PARENTPTR s1 node) (tree_rotate s1))
          else Some (Inr s1)"
  have unf: "tree_rebalance s node delta =
      Option.bind ?body (\<lambda>r. Some (bind_r r (rebalance_exit node)))"
    unfolding tree_rebalance.simps[of s node delta] na option.case Let_def
      i_def[symmetric] s1_def[symmetric]
    using a_ok d_ok i_ok by simp
  have ex1: "rebalance_exit node s1 = Inr s1" if "\<bar>i\<bar> \<le> 1"
    using that na by (auto simp: rebalance_exit_def s1_def)
  have c0: "tree_rebalance s node delta = Some (Inr s1)" if "i = 0"
    using that ex1 by (simp add: unf)
  have sq: "delta * delta = 1" using d_ok by auto
  have c1: "tree_rebalance s node delta =
                 (case fs of
                    [] \<Rightarrow> Some (Inr s1)
                  | Left_of p sib # fs' \<Rightarrow>
                      Option.bind (tree_rebalance s1 p (- 1))
                        (\<lambda>r. Some (bind_r r (rebalance_exit node)))
                  | Right_of sib p # fs' \<Rightarrow>
                      Option.bind (tree_rebalance s1 p 1)
                        (\<lambda>r. Some (bind_r r (rebalance_exit node))))" if "i = delta"
  proof (cases fs rule: hole_slot.cases)
    case 1
    have "\<bar>i\<bar> \<le> 1" using that d_ok by auto
    then show ?thesis using that 1 sq ex1 by (simp add: unf)
  next
    case (2 p sib fs')
    then show ?thesis using that sq TREE_SIDEOF_zip[OF z1] by (simp add: unf)
  next
    case (3 sib p fs')
    then show ?thesis using that sq TREE_SIDEOF_zip[OF z1] by (simp add: unf)
  qed
  have m2: "i * delta = 2" if "i = 2 * delta" using that sq by simp
  have c2: "tree_rebalance s node delta =
      Some (bind_r (tree_rotate s1 (hole_slot fs)) (rebalance_exit node))" if "i = 2 * delta"
    using m2[OF that] TREE_PARENTPTR_zip[OF z1] by (simp add: unf)
  have c2': "\<forall>x\<in>set (before fs @ after fs). imbalance_of s' x = imbalance_of s x"
    if "i = 2 * delta" "tree_rebalance s node delta = Some (Inr s')" for s'
  proof -
    from that c2 have "bind_r (tree_rotate s1 (hole_slot fs)) (rebalance_exit node) = Inr s'"
      by simp
    then have "tree_rotate s1 (hole_slot fs) = Inr s'"
      by (auto simp: bind_r_eq_Inr rebalance_exit_Inr)
    from tree_rotate_zip[OF z1 this] have
      fr: "\<forall>x. x \<notin> set (inorder (Branch l node r)) \<longrightarrow> imbalance_of s' x = imbalance_of s1 x"
      by blast
    have dj: "x \<notin> set (inorder (Branch l node r))" if "x \<in> set (before fs @ after fs)" for x
      using z that by (auto simp: zip_rep_def)
    show ?thesis
    proof
      fix x assume x: "x \<in> set (before fs @ after fs)"
      from dj[OF x] have "x \<noteq> node" by auto
      then have "imbalance_of s1 x = imbalance_of s x" by (simp add: s1_def set_imbalance_of)
      then show "imbalance_of s' x = imbalance_of s x" using fr dj[OF x] by simp
    qed
  qed
  have c3: "imbalance_of s' node \<in> {- 1, 0, 1}"
    if "tree_rebalance s node delta = Some (Inr s')" for s'
  proof -
    from that obtain r1 where "rebalance_exit node r1 = Inr s'"
      unfolding unf by (auto simp: Option.bind_eq_Some_conv bind_r_eq_Inr)
    then have "\<bar>imbalance_of s' node\<bar> \<le> 1" by (simp add: rebalance_exit_Inr)
    then show ?thesis by auto
  qed
  show ?thesis
    unfolding Let_def io i_def[symmetric] s1_def[symmetric]
    using i_range c0 c1 c2 c2' c3 by blast
qed

lemma main_state_zips:
  "zip_rep avl5 [] (Branch (Branch Empty 2 Empty) 1
                      (Branch (Branch Empty 4 Empty) 3 (Branch Empty 5 Empty))) \<and>
   zip_rep main_state [Left_of 1 Empty, Right_of (Branch (Branch Empty 5 Empty) 2 Empty) 3]
     (Branch Empty 4 (Branch Empty 6 Empty)) \<and>
   zip_rep main_state_up [Right_of (Branch (Branch Empty 5 Empty) 2 Empty) 3]
     (Branch (Branch Empty 4 (Branch Empty 6 Empty)) 1 Empty)"
  by code_simp

lemma main_state_imbalances:
  "imbalance_of avl5 1 = 1 \<and> imbalance_of main_state 4 = 0 \<and> imbalance_of main_state_up 1 = - 1 \<and>
   imbalance_of main_state_up 3 = 0"
  by code_simp

lemma main_state_up_returns:
  "case tree_rebalance main_state_up 1 (- 1) of
     None \<Rightarrow> False
   | Some r \<Rightarrow> (case r of Inl e \<Rightarrow> False | Inr s \<Rightarrow> True)"
  by code_simp

theorem tree_rebalance_level_witness:
  "tree_rebalance avl5 1 (- 1) = Some (Inr (upd_node avl5 1 (\<lambda>n. n\<lparr>imbalance := 0\<rparr>))) \<and>
   tree_rebalance main_state 4 1 =
     Option.bind (tree_rebalance (upd_node main_state 4 (\<lambda>n. n\<lparr>imbalance := 1\<rparr>)) 1 (- 1))
       (\<lambda>r. Some (bind_r r (rebalance_exit 4))) \<and>
   (\<exists>s'. tree_rebalance main_state_up 1 (- 1) = Some (Inr s') \<and>
      tree_rebalance main_state_up 1 (- 1) =
        Some (bind_r (tree_rotate (upd_node main_state_up 1 (\<lambda>n. n\<lparr>imbalance := - 2\<rparr>))
                        (Right_slot 3)) (rebalance_exit 1)) \<and>
      imbalance_of s' 3 = 0 \<and> imbalance_of s' 1 \<in> {- 1, 0, 1})"
proof -
  note z = main_state_zips
  note i = main_state_imbalances
  have w1: "tree_rebalance avl5 1 (- 1) = Some (Inr (upd_node avl5 1 (\<lambda>n. n\<lparr>imbalance := 0\<rparr>)))"
    using tree_rebalance_level[OF z[THEN conjunct1], of "- 1"] i by (simp add: Let_def)
  have w2: "tree_rebalance main_state 4 1 =
     Option.bind (tree_rebalance (upd_node main_state 4 (\<lambda>n. n\<lparr>imbalance := 1\<rparr>)) 1 (- 1))
       (\<lambda>r. Some (bind_r r (rebalance_exit 4)))"
    using tree_rebalance_level[OF z[THEN conjunct2, THEN conjunct1], of 1] i
    by (simp add: Let_def)
  from main_state_up_returns obtain s' where
    s': "tree_rebalance main_state_up 1 (- 1) = Some (Inr s')"
    by (auto split: option.splits sum.splits)
  have w3: "tree_rebalance main_state_up 1 (- 1) =
        Some (bind_r (tree_rotate (upd_node main_state_up 1 (\<lambda>n. n\<lparr>imbalance := - 2\<rparr>))
                        (Right_slot 3)) (rebalance_exit 1)) \<and>
      imbalance_of s' 3 = 0 \<and> imbalance_of s' 1 \<in> {- 1, 0, 1}"
    using tree_rebalance_level[OF z[THEN conjunct2, THEN conjunct2], of "- 1"] i s'
    by (simp add: Let_def)
  from s' w3 have "\<exists>s'. tree_rebalance main_state_up 1 (- 1) = Some (Inr s') \<and>
      tree_rebalance main_state_up 1 (- 1) =
        Some (bind_r (tree_rotate (upd_node main_state_up 1 (\<lambda>n. n\<lparr>imbalance := - 2\<rparr>))
                        (Right_slot 3)) (rebalance_exit 1)) \<and>
      imbalance_of s' 3 = 0 \<and> imbalance_of s' 1 \<in> {- 1, 0, 1}"
    by - (rule exI, rule conjI, assumption, assumption)
  with w1 w2 show ?thesis by (intro conjI)
qed

subsection \<open>The key of the new node\<close>

text \<open>
  C10. For a tree in the heap, a fresh address \<open>a\<close> and a key that is not in the tree, if
  \<open>tree_put\<close> returns, then: \<open>tree_insert_under\<close> (or \<open>tree_create_root\<close> on the
  empty tree) returned the address \<open>a\<close> of the new node itself, together with a state
  \<open>s3\<close> in which the key field of \<open>a\<close> is still 0; the final state is \<open>s3\<close> with the
  key written into node \<open>a\<close>, which is a node of the resulting tree wherever the rotations
  have put it; no other key has changed. \<open>tree_insert_under\<close> never returns another
  pointer than the new node's. And rebalancing does not read keys: whenever
  \<open>tree_rebalance\<close> returns a result on a state, it returns the same result (the same
  error, or the same state up to the keys) on every state that differs in the keys only.
\<close>

theorem tree_put_key_in_new_node:
  assumes "tree_rep s t" and "heap s a = None" and "k \<notin> key_of s ` set (inorder t)"
    and "tree_put s k (Some a) = Some (Inr s')"
  shows "(\<exists>fs s3 t'. plug fs Empty = t \<and>
            (case hole_par fs of
               None \<Rightarrow> tree_create_root s (Some a) = (s3, Some a)
             | Some p \<Rightarrow>
                 tree_insert_under s p (hole_slot fs = Right_slot p) (Some a)
                   = Some (Inr (s3, Some a))) \<and>
            key_of s3 a = 0 \<and> s' = upd_node s3 a (\<lambda>n. n\<lparr>key := k\<rparr>) \<and>
            tree_rep s' t' \<and> a \<in> set (inorder t')) \<and>
         key_of s' a = k \<and> (\<forall>x. x \<noteq> a \<longrightarrow> key_of s' x = key_of s x) \<and>
         (\<forall>p rs s2 ret. tree_insert_under s p rs (Some a) = Some (Inr (s2, ret)) \<longrightarrow>
            ret = Some a) \<and>
         (\<forall>s0 node bf r g. tree_rebalance s0 node bf = Some r \<longrightarrow>
            tree_rebalance (rekey g s0) node bf = Some (map_sum id (rekey g) r))"
proof -
  from assms(3) obtain fs where d: "descend s k [] t = Some fs"
    using descend_None[of s k "[]" t] by (cases "descend s k [] t") auto
  from tree_put_new_full[OF assms(1,2) d assms(4)] obtain s1 t' s3 where
    t': "tree_rep s' t'" "inorder t' = before fs @ a # after fs"
    and keys: "\<forall>x. key_of s' x = (if x = a then k else key_of s x)"
    and ret: "case hole_par fs of
               None \<Rightarrow> tree_create_root s (Some a) = (s3, Some a)
             | Some p \<Rightarrow>
                 tree_insert_under s p (hole_slot fs = Right_slot p) (Some a)
                   = Some (Inr (s3, Some a))"
    and k0: "key_of s3 a = 0" and s': "s' = upd_node s3 a (\<lambda>n. n\<lparr>key := k\<rparr>)"
    by (elim exE conjE)
  have pl: "plug fs Empty = t" using descend_plug[OF d] by simp
  have "a \<in> set (inorder t')" using t'(2) by simp
  with pl ret k0 s' t'(1) have "plug fs Empty = t \<and>
            (case hole_par fs of
               None \<Rightarrow> tree_create_root s (Some a) = (s3, Some a)
             | Some p \<Rightarrow>
                 tree_insert_under s p (hole_slot fs = Right_slot p) (Some a)
                   = Some (Inr (s3, Some a))) \<and>
            key_of s3 a = 0 \<and> s' = upd_node s3 a (\<lambda>n. n\<lparr>key := k\<rparr>) \<and>
            tree_rep s' t' \<and> a \<in> set (inorder t')"
    by (intro conjI)
  then have c1: "\<exists>fs s3 t'. plug fs Empty = t \<and>
            (case hole_par fs of
               None \<Rightarrow> tree_create_root s (Some a) = (s3, Some a)
             | Some p \<Rightarrow>
                 tree_insert_under s p (hole_slot fs = Right_slot p) (Some a)
                   = Some (Inr (s3, Some a))) \<and>
            key_of s3 a = 0 \<and> s' = upd_node s3 a (\<lambda>n. n\<lparr>key := k\<rparr>) \<and>
            tree_rep s' t' \<and> a \<in> set (inorder t')"
    by (intro exI)
  have c2: "key_of s' a = k" "\<forall>x. x \<noteq> a \<longrightarrow> key_of s' x = key_of s x"
    using keys by simp_all
  have c3: "ret = Some a" if "tree_insert_under s p rs (Some a) = Some (Inr (s2, ret))"
    for p rs s2 ret
  proof (cases "attach_node s p rs a")
    case (Inl e)
    then show ?thesis using that by (simp add: tree_insert_under_def)
  next
    case (Inr s1)
    with that obtain r where
      "Some (bind_r r (\<lambda>s3. Inr (s3, Some a))) = Some (Inr (s2, ret))"
      by (auto simp: tree_insert_under_def Option.bind_eq_Some_conv)
    then show ?thesis by (cases r) simp_all
  qed
  have c4: "tree_rebalance (rekey g s0) node bf = Some (map_sum id (rekey g) r)"
    if "tree_rebalance s0 node bf = Some r" for s0 node bf r g
    using that by (rule rekey_tree_rebalance)
  have c3': "\<forall>p rs s2 ret. tree_insert_under s p rs (Some a) = Some (Inr (s2, ret)) \<longrightarrow>
            ret = Some a"
    by (intro allI impI) (rule c3)
  have c4': "\<forall>s0 node bf r g. tree_rebalance s0 node bf = Some r \<longrightarrow>
            tree_rebalance (rekey g s0) node bf = Some (map_sum id (rekey g) r)"
    by (intro allI impI) (rule c4)
  from c1 c2 c3' c4' show ?thesis by (intro conjI)
qed

lemma two_nodes_valid:
  "tree_rep two_nodes (Branch (Branch Empty 2 Empty) 1 Empty) \<and> heap two_nodes 3 = None \<and>
   5 \<notin> key_of two_nodes ` set (inorder (Branch (Branch Empty 2 Empty) 1 Empty))"
  by (simp add: two_nodes_def tree_rep_def links_def mk_node_def key_of_def rep.simps(2))

lemma two_nodes_put_returns:
  "case tree_put two_nodes 5 (Some 3) of
     None \<Rightarrow> False
   | Some r \<Rightarrow> (case r of Inl e \<Rightarrow> False | Inr s \<Rightarrow> root s = Some 3 \<and> key_of s 1 = 12)"
  by code_simp

lemma two_nodes_insert_under_returns:
  "case tree_insert_under two_nodes 2 True (Some 3) of
     None \<Rightarrow> False
   | Some r \<Rightarrow> (case r of Inl e \<Rightarrow> False | Inr p \<Rightarrow> True)"
  by code_simp

theorem tree_put_key_in_new_node_witness:
  "(\<exists>s'. tree_put two_nodes 5 (Some 3) = Some (Inr s') \<and> key_of s' 3 = 5 \<and>
      key_of s' 1 = 12 \<and> root s' = Some 3) \<and>
   (\<exists>s2. tree_insert_under two_nodes 2 True (Some 3) = Some (Inr (s2, Some 3))) \<and>
   (\<exists>r. tree_rebalance main_state_up 1 (- 1) = Some r \<and>
      tree_rebalance (rekey (\<lambda>x. 7) main_state_up) 1 (- 1)
        = Some (map_sum id (rekey (\<lambda>x. 7)) r))"
proof -
  from two_nodes_put_returns obtain s' where
    s': "tree_put two_nodes 5 (Some 3) = Some (Inr s')" "root s' = Some 3" "key_of s' 1 = 12"
    by (auto split: option.splits sum.splits)
  note T = tree_put_key_in_new_node[OF two_nodes_valid[THEN conjunct1]
      two_nodes_valid[THEN conjunct2, THEN conjunct1]
      two_nodes_valid[THEN conjunct2, THEN conjunct2] s'(1)]
  have "key_of s' 3 = 5" using T by (elim conjE)
  with s' have w1: "\<exists>s'. tree_put two_nodes 5 (Some 3) = Some (Inr s') \<and> key_of s' 3 = 5 \<and>
      key_of s' 1 = 12 \<and> root s' = Some 3"
    by (intro exI[of _ s'] conjI)
  from two_nodes_insert_under_returns obtain s2 ret where
    iu: "tree_insert_under two_nodes 2 True (Some 3) = Some (Inr (s2, ret))"
    by (auto split: option.splits sum.splits)
  have "ret = Some 3"
    using T[THEN conjunct2, THEN conjunct2, THEN conjunct2, THEN conjunct1, rule_format, OF iu] .
  with iu have w2: "\<exists>s2. tree_insert_under two_nodes 2 True (Some 3) = Some (Inr (s2, Some 3))"
    by (intro exI[of _ s2]) simp
  from main_state_up_returns obtain r where
    r: "tree_rebalance main_state_up 1 (- 1) = Some r"
    by (auto split: option.splits)
  note T4 = T[THEN conjunct2, THEN conjunct2, THEN conjunct2, THEN conjunct2, rule_format, OF r,
      of "\<lambda>x. 7"]
  with r have w3: "\<exists>r. tree_rebalance main_state_up 1 (- 1) = Some r \<and>
      tree_rebalance (rekey (\<lambda>x. 7) main_state_up) 1 (- 1)
        = Some (map_sum id (rekey (\<lambda>x. 7)) r)"
    by (intro exI[of _ r] conjI)
  from w1 w2 w3 show ?thesis by (intro conjI)
qed

end
